theory Spec2Isabelle
  imports Complex_Main "HOL-Library.Log_Nat"
begin

section \<open>Test-set generator of ragas (src/ragas/testset/generator.py)\<close>

text \<open>
  A shallow embedding of \<^verbatim>\<open>TestDataset\<close> and \<^verbatim>\<open>TestsetGenerator\<close>.
  Python exceptions are values of \<open>error\<close>; the mutation of the executor list, of the
  counter \<^verbatim>\<open>total_evolutions\<close> and the calls made to the collaborators (document
  store, evolutions, telemetry) are threaded through an explicit state with an event
  trace. A Python float is modelled by its exact rational value, with the rounding of
  IEEE 754 doubles written out where the source computes with floats.
\<close>

subsection \<open>Errors, rows and datasets\<close>

datatype error =
    ValueError          \<comment> \<open>the distributions do not sum to 1.0\<close>
  | IndexError          \<comment> \<open>list index out of range\<close>
  | AssertionError      \<comment> \<open>a failed \<^verbatim>\<open>assert\<close>\<close>
  | ExceptionInRunner   \<comment> \<open>no rows came back from the executors\<close>
  | EvolutionRaised     \<comment> \<open>an exception raised inside an evolution's \<^verbatim>\<open>evolve\<close>\<close>
  | SamplingFailed      \<comment> \<open>the document store could not supply the nodes\<close>
  | OverflowError       \<comment> \<open>a number too large for a float, or the rounding of an infinity\<close>

text \<open>What an evolution hands back: a data row, or the \<^verbatim>\<open>np.nan\<close> sentinel.\<close>

datatype 'r row = DataRow 'r | NaN

text \<open>A call of \<^verbatim>\<open>evolve\<close> returns such a value or raises.\<close>

datatype 'r outcome = Returned "'r row" | Raised

fun is_nan :: "'r row \<Rightarrow> bool" where
  "is_nan NaN = True"
| "is_nan (DataRow r) = False"

text \<open>
  The dataclass \<^verbatim>\<open>TestDataset\<close>. Its only field is untyped at run time:
  \<^verbatim>\<open>generate\<close> stores a list of rows in it, \<^verbatim>\<open>generate_single\<close> a single row.
\<close>

record 'd TestDataset =
  test_data :: 'd

text \<open>
  A row seen as a dictionary (\<^verbatim>\<open>dict(data)\<close>): field names to values, where a
  value is a Python boolean or any other payload.
\<close>

datatype 'v pyval = PyBool bool | PyVal 'v

type_synonym 'v pydict = "string \<rightharpoonup> 'v pyval"

text \<open>The external table constructors, holding the records they were given.\<close>

datatype 'v DataFrame = DataFrame_from_records "'v pydict list"

datatype 'v Dataset = Dataset_from_list "'v pydict list"

text \<open>The loop of \<^verbatim>\<open>_to_records\<close>, with \<^verbatim>\<open>data_samples\<close> as accumulator.\<close>

fun to_records_loop :: "'v pydict list \<Rightarrow> 'v pydict list \<Rightarrow> 'v pydict list" where
  "to_records_loop [] data_samples = data_samples"
| "to_records_loop (data # rest) data_samples =
     (let data_dict = data;
          data_dict = data_dict(''episode_done'' \<mapsto> PyBool True)
      in to_records_loop rest (data_samples @ [data_dict]))"

definition to_records :: "'v pydict list TestDataset \<Rightarrow> 'v pydict list" where
  "to_records self = to_records_loop (test_data self) []"

definition to_pandas :: "'v pydict list TestDataset \<Rightarrow> 'v DataFrame" where
  "to_pandas self = DataFrame_from_records (to_records self)"

definition to_dataset :: "'v pydict list TestDataset \<Rightarrow> 'v Dataset" where
  "to_dataset self = Dataset_from_list (to_records self)"

subsection \<open>Evolutions and their initialisation\<close>

datatype 'llm filter = QuestionFilter 'llm | NodeFilter 'llm | EvolutionFilter 'llm

text \<open>
  The fields of an \<^verbatim>\<open>Evolution\<close> that \<^verbatim>\<open>init_evolution\<close> reads and writes.
  \<open>is_ComplexEvolution\<close> is the outcome of \<^verbatim>\<open>isinstance(evolution, ComplexEvolution)\<close>;
  only such an evolution has the attribute \<open>evolution_filter\<close>.
\<close>

record ('llm, 'ds) Evolution =
  generator_llm :: "'llm option"
  docstore :: "'ds option"
  question_filter :: "'llm filter option"
  node_filter :: "'llm filter option"
  is_ComplexEvolution :: bool
  evolution_filter :: "'llm filter option"

text \<open>The fields of the \<^verbatim>\<open>TestsetGenerator\<close> dataclass.\<close>

record ('llm, 'emb, 'ds) TestsetGenerator =
  self_generator_llm :: 'llm
  self_critic_llm :: 'llm
  self_embeddings :: 'emb
  self_docstore :: 'ds

definition init_evolution ::
  "('llm, 'emb, 'ds) TestsetGenerator \<Rightarrow> ('llm, 'ds) Evolution \<Rightarrow> ('llm, 'ds) Evolution" where
  "init_evolution self evolution =
     (if generator_llm evolution = None then
        let e1 = evolution\<lparr>generator_llm := Some (self_generator_llm self)\<rparr>;
            e2 = (if docstore e1 = None then e1\<lparr>docstore := Some (self_docstore self)\<rparr> else e1);
            e3 = (if question_filter e2 = None
                  then e2\<lparr>question_filter := Some (QuestionFilter (self_critic_llm self))\<rparr> else e2);
            e4 = (if node_filter e3 = None
                  then e3\<lparr>node_filter := Some (NodeFilter (self_critic_llm self))\<rparr> else e3)
        in if is_ComplexEvolution e4 then
             (if evolution_filter e4 = None
              then e4\<lparr>evolution_filter := Some (EvolutionFilter (self_critic_llm self))\<rparr> else e4)
           else e4
      else evolution)"

subsection \<open>Collaborators of \<^verbatim>\<open>generate\<close>\<close>

text \<open>
  The document store: its node list and its sampling method
  \<^verbatim>\<open>get_random_nodes(k, score_threshold)\<close>, which is random and therefore a parameter
  of the model; \<open>None\<close> when it raises.
\<close>

record 'n DocumentStore =
  store_nodes :: "'n list"
  get_random_nodes :: "nat \<Rightarrow> rat option \<Rightarrow> 'n list option"

record 'n CurrentNodes =
  root_node :: 'n
  nodes :: "'n list"

text \<open>
  One call of \<^verbatim>\<open>Executor.submit\<close>: the evolution whose \<^verbatim>\<open>evolve\<close> is submitted, its
  argument, and the name \<^verbatim>\<open>f"{evolution.__class__.__name__}-{i}"\<close>, kept as the pair of
  the evolution and the number.
\<close>

record ('e, 'n) task =
  fn :: 'e
  arg :: "'n CurrentNodes"
  name :: "'e \<times> nat"

text \<open>An \<^verbatim>\<open>Executor\<close>: \<open>desc\<close> is the \<open>k\<close> of \<^verbatim>\<open>"Generating_k"\<close>.\<close>

record ('e, 'n) Executor =
  desc :: nat
  raise_exceptions :: bool
  jobs :: "('e, 'n) task list"

text \<open>What the run does to its collaborators, in order.\<close>

datatype ('e, 'n) event =
    SetRunConfig
  | InitEvolution 'e
  | GetRandomNodes nat
  | Submit "('e, 'n) task"
  | Evolve 'e "'n CurrentNodes"
  | Track nat

fun is_Evolve :: "('e, 'n) event \<Rightarrow> bool" where
  "is_Evolve (Evolve e c) = True"
| "is_Evolve _ = False"

text \<open>
  Modelled from the spec: \<^verbatim>\<open>ragas.utils.check_if_sum_is_close\<close> is not among the
  sources. The spec's validator accepts the weights when
  \<open>\<bar>sum(weights) - 1.0\<bar> < 1e-3\<close>; the source calls it with target \<open>1.0\<close> and
  \<open>3\<close> places.
\<close>

definition check_if_sum_is_close :: "rat list \<Rightarrow> rat \<Rightarrow> nat \<Rightarrow> bool" where
  "check_if_sum_is_close vals close_to num_places =
     (\<bar>sum_list vals - close_to\<bar> < 1 / 10 ^ num_places)"

text \<open>Python's \<^verbatim>\<open>round\<close> to an integer: to the nearest, a tie to the even one.\<close>

definition py_round :: "rat \<Rightarrow> int" where
  "py_round x =
     (let f = \<lfloor>x\<rfloor>; d = x - of_int f
      in if d < 1 / 2 then f
         else if 1 / 2 < d then f + 1
         else if even f then f else f + 1)"

text \<open>
  \<^verbatim>\<open>random.choices(population, k=k)\<close>, drawing through an injectable random source
  \<open>rng\<close>. As in Python, an empty population fails unless nothing is drawn.
\<close>

definition choices :: "(nat \<Rightarrow> nat) \<Rightarrow> 'a list \<Rightarrow> nat \<Rightarrow> error + 'a list" where
  "choices rng population k =
     (if k = 0 then Inr []
      else if population = [] then Inl IndexError
      else Inr (map (\<lambda>j. population ! (rng j mod length population)) [0..<k]))"

text \<open>Whether a call raised, and the row a tolerated call leaves in the results.\<close>

fun raised :: "'r outcome \<Rightarrow> bool" where
  "raised Raised = True"
| "raised (Returned r) = False"

fun outcome_or_nan :: "'r outcome \<Rightarrow> 'r row" where
  "outcome_or_nan Raised = NaN"
| "outcome_or_nan (Returned r) = r"

text \<open>
  Modelled from the spec: \<^verbatim>\<open>ragas.executor.Executor\<close> is not among the sources. By the
  spec a unit runs all its registered tasks and returns their outcomes in registration
  order; with \<open>raise_exceptions\<close> a failure of a task is re-raised and the unit's
  outcomes are discarded, without it a failure becomes the invalid sentinel.
  \<open>evolve\<close> is the strategies' \<^verbatim>\<open>evolve\<close> method.
\<close>

definition Executor_results ::
  "('e \<Rightarrow> 'n CurrentNodes \<Rightarrow> 'r outcome) \<Rightarrow> ('e, 'n) Executor \<Rightarrow>
     ('e, 'n) event list \<times> (error + 'r row list)" where
  "Executor_results evolve ex =
     (let outcomes = map (\<lambda>t. evolve (fn t) (arg t)) (jobs ex);
          calls = map (\<lambda>t. Evolve (fn t) (arg t)) (jobs ex)
      in if raise_exceptions ex \<and> list_ex raised outcomes then (calls, Inl EvolutionRaised)
         else (calls, Inr (map outcome_or_nan outcomes)))"

subsection \<open>The scheduling loops of \<^verbatim>\<open>generate\<close>\<close>

text \<open>
  The local state of \<^verbatim>\<open>generate\<close> while it schedules: the executor list \<open>execs\<close>, the
  counter \<open>total_evolutions\<close>, and the trace of calls made so far. A failure keeps the
  trace up to the point where it was raised.
\<close>

record ('e, 'n) sched =
  execs :: "('e, 'n) Executor list"
  total_evolutions :: nat
  trace :: "('e, 'n) event list"

type_synonym ('e, 'n) failure = "error \<times> ('e, 'n) event list"

definition max_parallel_process :: nat where
  "max_parallel_process = 10"

definition new_Executor :: "nat \<Rightarrow> bool \<Rightarrow> ('e, 'n) Executor" where
  "new_Executor k re = \<lparr>desc = k, raise_exceptions = re, jobs = []\<rparr>"

definition submit :: "('e, 'n) task \<Rightarrow> ('e, 'n) Executor \<Rightarrow> ('e, 'n) Executor" where
  "submit t ex = ex\<lparr>jobs := jobs ex @ [t]\<rparr>"

text \<open>
  The body both loops share: \<^verbatim>\<open>execs[-1].submit(...)\<close>, a new executor appended when
  \<^verbatim>\<open>total_evolutions % max_parallel_process == max_parallel_process - 1\<close>, then
  \<^verbatim>\<open>total_evolutions += 1\<close>.
\<close>

definition submit_step ::
  "bool \<Rightarrow> ('e, 'n) task \<Rightarrow> ('e, 'n) sched \<Rightarrow> ('e, 'n) failure + ('e, 'n) sched" where
  "submit_step re t s =
     (if execs s = [] then Inl (IndexError, trace s)
      else
        let ex1 = butlast (execs s) @ [submit t (last (execs s))];
            ex2 = (if total_evolutions s mod max_parallel_process = max_parallel_process - 1
                   then ex1 @ [new_Executor (length ex1) re] else ex1)
        in Inr \<lparr>execs = ex2, total_evolutions = total_evolutions s + 1,
                trace = trace s @ [Submit t]\<rparr>)"

text \<open>
  The inner loop \<^verbatim>\<open>for i in range(round(probability * test_size))\<close> of one evolution.
  The node is \<^verbatim>\<open>current_nodes[i]\<close>, indexed by the loop variable.
\<close>

fun evolution_loop ::
  "bool \<Rightarrow> 'n CurrentNodes list \<Rightarrow> 'e \<Rightarrow> nat list \<Rightarrow> ('e, 'n) sched \<Rightarrow>
     ('e, 'n) failure + ('e, 'n) sched" where
  "evolution_loop re current_nodes evolution [] s = Inr s"
| "evolution_loop re current_nodes evolution (i # is) s =
     (if i < length current_nodes then
        (case submit_step re \<lparr>fn = evolution, arg = current_nodes ! i, name = (evolution, i)\<rparr> s of
           Inl f \<Rightarrow> Inl f
         | Inr s' \<Rightarrow> evolution_loop re current_nodes evolution is s')
      else Inl (IndexError, trace s))"

subsection \<open>Floating point\<close>

text \<open>Powers of two with an integer exponent.\<close>

definition pow2 :: "int \<Rightarrow> rat" where
  "pow2 k = (if 0 \<le> k then 2 ^ nat k else 1 / 2 ^ nat (- k))"

text \<open>
  The binary exponent \<open>\<lfloor>log\<^sub>2 a\<rfloor>\<close> of a positive rational, from the bit lengths of
  its numerator and denominator.
\<close>

definition ilog2 :: "rat \<Rightarrow> int" where
  "ilog2 a =
     (let (n, d) = quotient_of a;
          k = bitlen n - bitlen d
      in if pow2 k \<le> a then k else k - 1)"

text \<open>
  The double nearest to a rational, a tie going to the even significand: 53 significant
  bits, the unit in the last place never below \<open>2\<^sup>-\<^sup>1\<^sup>0\<^sup>7\<^sup>4\<close> (subnormal numbers). A
  value of magnitude \<open>2\<^sup>1\<^sup>0\<^sup>2\<^sup>4\<close> or more stands for an infinity.
\<close>

definition float_round :: "rat \<Rightarrow> rat" where
  "float_round x =
     (if x = 0 then 0
      else
        let a = \<bar>x\<bar>;
            e = max (ilog2 a) (- 1022);
            ulp = pow2 (e - 52)
        in sgn x * of_int (py_round (a / ulp)) * ulp)"

definition float_is_inf :: "rat \<Rightarrow> bool" where
  "float_is_inf y = (y \<noteq> 0 \<and> 1024 \<le> ilog2 \<bar>y\<bar>)"

text \<open>
  The bound \<^verbatim>\<open>round(probability * test_size)\<close> of the inner loop. The weight is a float
  (a weight written as a decimal stands for the nearest double), \<^verbatim>\<open>test_size\<close> is
  converted to a float, the product is a float product, and \<^verbatim>\<open>round\<close> takes the product
  to the nearest integer. The conversion fails for an integer beyond the floats, and
  \<^verbatim>\<open>round\<close> fails on an infinite product. A negative bound gives an empty range.
\<close>

definition evolution_count :: "rat \<Rightarrow> nat \<Rightarrow> error + nat" where
  "evolution_count probability test_size =
     (let n = float_round (of_nat test_size)
      in if float_is_inf n then Inl OverflowError
         else
           let product = float_round (float_round probability * n)
           in if float_is_inf product then Inl OverflowError
              else Inr (nat (py_round product)))"

text \<open>The outer loop \<^verbatim>\<open>for evolution, probability in distributions.items()\<close>.\<close>

fun distributions_loop ::
  "bool \<Rightarrow> 'n CurrentNodes list \<Rightarrow> nat \<Rightarrow> ('e \<times> rat) list \<Rightarrow> ('e, 'n) sched \<Rightarrow>
     ('e, 'n) failure + ('e, 'n) sched" where
  "distributions_loop re current_nodes test_size [] s = Inr s"
| "distributions_loop re current_nodes test_size ((evolution, probability) # rest) s =
     (case evolution_count probability test_size of
        Inl e \<Rightarrow> Inl (e, trace s)
      | Inr bound \<Rightarrow>
          (case evolution_loop re current_nodes evolution [0..<bound] s of
             Inl f \<Rightarrow> Inl f
           | Inr s' \<Rightarrow> distributions_loop re current_nodes test_size rest s'))"

text \<open>
  The loop over \<^verbatim>\<open>filler_evolutions\<close>. The node is
  \<^verbatim>\<open>current_nodes[total_evolutions]\<close>, indexed by the global counter.
\<close>

fun filler_loop ::
  "bool \<Rightarrow> 'n CurrentNodes list \<Rightarrow> 'e list \<Rightarrow> ('e, 'n) sched \<Rightarrow>
     ('e, 'n) failure + ('e, 'n) sched" where
  "filler_loop re current_nodes [] s = Inr s"
| "filler_loop re current_nodes (evolution # rest) s =
     (if total_evolutions s < length current_nodes then
        (case submit_step re
                \<lparr>fn = evolution, arg = current_nodes ! total_evolutions s,
                 name = (evolution, total_evolutions s)\<rparr> s of
           Inl f \<Rightarrow> Inl f
         | Inr s' \<Rightarrow> filler_loop re current_nodes rest s')
      else Inl (IndexError, trace s))"

text \<open>The comprehension \<^verbatim>\<open>[CurrentNodes(root_node=n, nodes=[n]) for n in ...]\<close>.\<close>

definition initial_current_nodes :: "'n list \<Rightarrow> 'n CurrentNodes list" where
  "initial_current_nodes sampled = map (\<lambda>n. \<lparr>root_node = n, nodes = [n]\<rparr>) sampled"

text \<open>
  \<^verbatim>\<open>generate\<close> from the sampling of the nodes to the end of the second loop, after
  the distributions were accepted.
\<close>

definition schedule ::
  "'n DocumentStore \<Rightarrow> (nat \<Rightarrow> nat) \<Rightarrow> nat \<Rightarrow> ('e \<times> rat) list \<Rightarrow> bool \<Rightarrow>
     ('e, 'n) failure + ('e, 'n) sched" where
  "schedule ds rng test_size distributions re =
     (let s0 = \<lparr>execs = [new_Executor 0 re], total_evolutions = 0,
                trace = SetRunConfig # map InitEvolution (map fst distributions) @
                        [GetRandomNodes test_size]\<rparr>
      in case get_random_nodes ds test_size None of
           None \<Rightarrow> Inl (SamplingFailed, trace s0)
         | Some sampled \<Rightarrow>
             (let current_nodes = initial_current_nodes sampled
              in case distributions_loop re current_nodes test_size distributions s0 of
                   Inl f \<Rightarrow> Inl f
                 | Inr s1 \<Rightarrow>
                     if total_evolutions s1 \<le> test_size then
                       (case choices rng (map fst distributions)
                               (test_size - total_evolutions s1) of
                          Inl e \<Rightarrow> Inl (e, trace s1)
                        | Inr filler_evolutions \<Rightarrow>
                            filler_loop re current_nodes filler_evolutions s1)
                     else Inr s1))"

text \<open>The task assignments of a state: the jobs of its executors, in order.\<close>

definition assignments :: "('e, 'n) sched \<Rightarrow> ('e, 'n) task list" where
  "assignments s = concat (map jobs (execs s))"

subsection \<open>Collecting the results\<close>

text \<open>The loop \<^verbatim>\<open>for exec in execs: total_test_data_rows += exec.results()\<close>.\<close>

fun results_loop ::
  "('e \<Rightarrow> 'n CurrentNodes \<Rightarrow> 'r outcome) \<Rightarrow> ('e, 'n) Executor list \<Rightarrow> 'r row list \<Rightarrow>
     ('e, 'n) event list \<Rightarrow> ('e, 'n) failure + ('r row list \<times> ('e, 'n) event list)" where
  "results_loop evolve [] total_test_data_rows tr = Inr (total_test_data_rows, tr)"
| "results_loop evolve (ex # rest) total_test_data_rows tr =
     (case Executor_results evolve ex of
        (calls, Inl e) \<Rightarrow> Inl (e, tr @ calls)
      | (calls, Inr test_data_rows) \<Rightarrow>
          results_loop evolve rest (total_test_data_rows @ test_data_rows) (tr @ calls))"

definition generate ::
  "'n DocumentStore \<Rightarrow> ('e \<Rightarrow> 'n CurrentNodes \<Rightarrow> 'r outcome) \<Rightarrow> (nat \<Rightarrow> nat) \<Rightarrow> nat \<Rightarrow>
     ('e \<times> rat) list \<Rightarrow> bool \<Rightarrow> ('e, 'n) event list \<times> (error + 'r row list TestDataset)" where
  "generate ds evolve rng test_size distributions re =
     (if \<not> check_if_sum_is_close (map snd distributions) 1 3 then ([], Inl ValueError)
      else
        case schedule ds rng test_size distributions re of
          Inl (e, tr) \<Rightarrow> (tr, Inl e)
        | Inr s \<Rightarrow>
            (case results_loop evolve (execs s) [] (trace s) of
               Inl (e, tr) \<Rightarrow> (tr, Inl e)
             | Inr (total_test_data_rows, tr) \<Rightarrow>
                 if total_test_data_rows = [] then (tr, Inl ExceptionInRunner)
                 else
                   let total_test_data_rows = filter (\<lambda>r. \<not> is_nan r) total_test_data_rows;
                       test_dataset = \<lparr>test_data = total_test_data_rows\<rparr>
                   in (tr @ [Track (length (test_data test_dataset))], Inr test_dataset)))"

subsection \<open>The single-row path\<close>

text \<open>Python's list indexing: a negative index counts from the end.\<close>

definition py_getitem :: "'a list \<Rightarrow> int \<Rightarrow> error + 'a" where
  "py_getitem xs i =
     (let n = int (length xs); j = (if i < 0 then i + n else i)
      in if 0 \<le> j \<and> j < n then Inr (xs ! nat j) else Inl IndexError)"

text \<open>
  What \<^verbatim>\<open>generate_single\<close> binds to \<^verbatim>\<open>node\<close>: an element of the store's node list, or
  whatever \<^verbatim>\<open>get_random_nodes(k=1, score_threshold=...)\<close> returned.
\<close>

datatype 'n picked = Indexed 'n | Sampled "'n list"

text \<open>
  The branch \<^verbatim>\<open>if node_index is not None: ... else: ...\<close> that selects the node. The
  \<^verbatim>\<open>assert\<close> checks the upper bound only; the indexing that follows is Python's.
\<close>

definition select_node ::
  "'n DocumentStore \<Rightarrow> rat \<Rightarrow> int option \<Rightarrow> ('e, 'n picked) event list \<Rightarrow>
     ('e, 'n picked) failure + ('n picked \<times> ('e, 'n picked) event list)" where
  "select_node ds score_threshold node_index tr =
     (case node_index of
        Some i \<Rightarrow>
          if i < int (length (store_nodes ds)) then
            (case py_getitem (store_nodes ds) i of
               Inl e \<Rightarrow> Inl (e, tr)
             | Inr n \<Rightarrow> Inr (Indexed n, tr))
          else Inl (AssertionError, tr)
      | None \<Rightarrow>
          (case get_random_nodes ds 1 (Some score_threshold) of
             None \<Rightarrow> Inl (SamplingFailed, tr @ [GetRandomNodes 1])
           | Some sampled \<Rightarrow> Inr (Sampled sampled, tr @ [GetRandomNodes 1])))"

definition generate_single ::
  "'n DocumentStore \<Rightarrow> ('e \<Rightarrow> 'n picked CurrentNodes \<Rightarrow> 'r outcome) \<Rightarrow> 'e \<Rightarrow> rat \<Rightarrow>
     int option \<Rightarrow> ('e, 'n picked) event list \<times> (error + 'r row TestDataset option)" where
  "generate_single ds evolve evolution score_threshold node_index =
     (case select_node ds score_threshold node_index [SetRunConfig, InitEvolution evolution] of
        Inl (e, tr) \<Rightarrow> (tr, Inl e)
      | Inr (node, tr) \<Rightarrow>
          (let current_node = \<lparr>root_node = node, nodes = [node]\<rparr>;
               tr1 = tr @ [Evolve evolution current_node]
           in (case evolve evolution current_node of
                 Raised \<Rightarrow> (tr1, Inl EvolutionRaised)
               | Returned test_data_row \<Rightarrow>
                   if \<not> is_nan test_data_row then (tr1, Inr (Some \<lparr>test_data = test_data_row\<rparr>))
                   else (tr1, Inr None))))"

subsection \<open>The default distribution\<close>

datatype strategy = simple | reasoning | multi_context

definition DEFAULT_DISTRIBUTION :: "(strategy \<times> rat) list" where
  "DEFAULT_DISTRIBUTION = [(simple, 1 / 2), (reasoning, 1 / 4), (multi_context, 1 / 4)]"

subsection \<open>Notions used by the properties\<close>

text \<open>
  The number of rounds the inner loop makes for a weight: the bound
  \<^verbatim>\<open>round(probability * test_size)\<close> when it is positive, otherwise none.
\<close>

definition rounded_count :: "rat \<Rightarrow> nat \<Rightarrow> nat" where
  "rounded_count probability test_size =
     (case evolution_count probability test_size of Inl e \<Rightarrow> 0 | Inr bound \<Rightarrow> bound)"

text \<open>The bound of a weight is computed without error and is at most \<open>limit\<close>.\<close>

definition count_fits :: "rat \<Rightarrow> nat \<Rightarrow> nat \<Rightarrow> bool" where
  "count_fits probability test_size limit =
     (case evolution_count probability test_size of
        Inl e \<Rightarrow> False
      | Inr bound \<Rightarrow> bound \<le> limit)"

text \<open>The number of rounds of the first loop, summed over the strategies.\<close>

definition rounded_total :: "('e \<times> rat) list \<Rightarrow> nat \<Rightarrow> nat" where
  "rounded_total distributions test_size =
     sum_list (map (\<lambda>(evolution, probability). rounded_count probability test_size)
       distributions)"

text \<open>
  The shape of the executor list while \<^verbatim>\<open>generate\<close> schedules: every executor but
  the last is full, the last holds the remainder, possibly nothing.
\<close>

definition sched_inv :: "('e, 'n) sched \<Rightarrow> bool" where
  "sched_inv s =
     (execs s \<noteq> [] \<and>
      length (execs s) = total_evolutions s div max_parallel_process + 1 \<and>
      list_all (\<lambda>ex. length (jobs ex) = max_parallel_process) (butlast (execs s)) \<and>
      length (jobs (last (execs s))) = total_evolutions s mod max_parallel_process)"

text \<open>
  The assignments of the first loop, strategy by strategy: the \<open>i\<close>-th assignment of
  a strategy takes \<^verbatim>\<open>current_nodes[i]\<close>.
\<close>

definition rounded_assignments ::
  "'n CurrentNodes list \<Rightarrow> ('e \<times> rat) list \<Rightarrow> nat \<Rightarrow> ('e, 'n) task list" where
  "rounded_assignments current_nodes distributions test_size =
     concat (map (\<lambda>(evolution, probability).
                    map (\<lambda>i. \<lparr>fn = evolution, arg = current_nodes ! i, name = (evolution, i)\<rparr>)
                      [0..<rounded_count probability test_size])
               distributions)"

text \<open>
  The assignments of the second loop: the \<open>j\<close>-th draw takes
  \<^verbatim>\<open>current_nodes[start + j]\<close>, where \<open>start\<close> is the counter when the loop begins.
\<close>

definition filler_assignments ::
  "'n CurrentNodes list \<Rightarrow> 'e list \<Rightarrow> nat \<Rightarrow> ('e, 'n) task list" where
  "filler_assignments current_nodes filler_evolutions start =
     map (\<lambda>(evolution, k). \<lparr>fn = evolution, arg = current_nodes ! k, name = (evolution, k)\<rparr>)
       (zip filler_evolutions [start..<start + length filler_evolutions])"

text \<open>A store of ten nodes \<open>0, \<dots>, 9\<close> whose sampling returns the first \<open>k\<close>.\<close>

definition ten_nodes :: "nat DocumentStore" where
  "ten_nodes = \<lparr>store_nodes = [0..<10], get_random_nodes = (\<lambda>k th. Some [0..<k])\<rparr>"

section \<open>Properties\<close>

subsection \<open>Record views\<close>

lemma to_records_loop_eq:
  "to_records_loop rows acc = acc @ map (\<lambda>d. d(''episode_done'' \<mapsto> PyBool True)) rows"
  by (induction rows arbitrary: acc) simp_all

lemma to_records_eq:
  "to_records self = map (\<lambda>d. d(''episode_done'' \<mapsto> PyBool True)) (test_data self)"
  by (simp add: to_records_def to_records_loop_eq)

text \<open>
  C10. Both record views (\<^verbatim>\<open>to_pandas\<close>, \<^verbatim>\<open>to_dataset\<close>) are built from the same
  record list, which has exactly one record per stored row, in the stored order: record
  \<open>i\<close> agrees with row \<open>i\<close> on every field other than \<open>episode_done\<close>, and carries
  \<open>episode_done = True\<close>.
\<close>

theorem to_records_one_per_row:
  "to_pandas self = DataFrame_from_records (to_records self) \<and>
   to_dataset self = Dataset_from_list (to_records self) \<and>
   length (to_records self) = length (test_data self) \<and>
   (\<forall>i < length (test_data self).
      (to_records self ! i) ''episode_done'' = Some (PyBool True) \<and>
      (\<forall>k. k \<noteq> ''episode_done'' \<longrightarrow> (to_records self ! i) k = (test_data self ! i) k))"
  by (simp add: to_pandas_def to_dataset_def to_records_eq)

theorem to_records_one_per_row_witness:
  "length (to_records \<lparr>test_data = [[''question'' \<mapsto> PyVal (1::nat)], [''question'' \<mapsto> PyVal 2]]\<rparr>) = 2 \<and>
   (to_records \<lparr>test_data = [[''question'' \<mapsto> PyVal (1::nat)], [''question'' \<mapsto> PyVal 2]]\<rparr> ! 1)
      ''episode_done'' = Some (PyBool True) \<and>
   (to_records \<lparr>test_data = [[''question'' \<mapsto> PyVal (1::nat)], [''question'' \<mapsto> PyVal 2]]\<rparr> ! 1)
      ''question'' = Some (PyVal 2)"
  using to_records_one_per_row
    [of "\<lparr>test_data = [[''question'' \<mapsto> PyVal (1::nat)], [''question'' \<mapsto> PyVal 2]]\<rparr>"]
  by (simp add: to_records_eq)

subsection \<open>Rounding and the shared loop body\<close>

lemma py_round_zero: "py_round 0 = 0"
  by (simp add: py_round_def)

lemma py_round_le:
  assumes "x \<le> of_int n"
  shows "py_round x \<le> n"
proof -
  have f: "\<lfloor>x\<rfloor> \<le> n" using assms by (simp add: floor_le_iff)
  show ?thesis
  proof (cases "x - of_int \<lfloor>x\<rfloor> < 1 / 2")
    case True
    then show ?thesis using f by (simp add: py_round_def Let_def)
  next
    case False
    then have "of_int \<lfloor>x\<rfloor> < x" by linarith
    then have "of_int \<lfloor>x\<rfloor> < (of_int n :: rat)" using assms by linarith
    then have "\<lfloor>x\<rfloor> < n" by simp
    then show ?thesis by (simp add: py_round_def Let_def)
  qed
qed

lemma float_round_zero: "float_round 0 = 0"
  by (simp add: float_round_def)

lemma evolution_count_zero: "evolution_count p 0 = Inr 0"
  by (simp add: evolution_count_def float_round_zero float_is_inf_def py_round_zero)

lemma rounded_count_zero: "rounded_count p 0 = 0"
  by (simp add: rounded_count_def evolution_count_zero)

lemma count_fits_eq:
  "count_fits p n limit \<longleftrightarrow>
     evolution_count p n = Inr (rounded_count p n) \<and> rounded_count p n \<le> limit"
  by (simp add: count_fits_def rounded_count_def split: sum.splits)

text \<open>The exponent \<open>ilog2 a\<close> is the floor of the binary logarithm.\<close>

lemma pow2_powi: "pow2 k = 2 powi k"
  by (simp add: pow2_def power_int_def inverse_eq_divide power_one_over)

lemma pow2_pos: "0 < pow2 k"
  by (simp add: pow2_def)

lemma pow2_add: "pow2 (i + j) = pow2 i * pow2 j"
  by (simp add: pow2_powi power_int_add)

lemma pow2_less_iff: "pow2 i < pow2 j \<longleftrightarrow> i < j"
proof
  assume l: "pow2 i < pow2 j"
  show "i < j"
  proof (rule ccontr)
    assume "\<not> i < j"
    then have "j \<le> i" by simp
    then have "(2 :: rat) powi j \<le> 2 powi i" by (intro power_int_increasing) simp_all
    with l show False by (simp add: pow2_powi)
  qed
next
  assume "i < j"
  then have "(2 :: rat) powi i < 2 powi j" by (intro power_int_strict_increasing) simp_all
  then show "pow2 i < pow2 j" by (simp add: pow2_powi)
qed

lemma pow2_le_iff: "pow2 i \<le> pow2 j \<longleftrightarrow> i \<le> j"
  using pow2_less_iff[of j i] by (simp add: not_less[symmetric])

lemma pow2_nat: "pow2 (int k) = 2 ^ k"
  by (simp add: pow2_def)

lemma of_int_bitlen_bounds:
  assumes "0 < x"
  shows "pow2 (bitlen x - 1) \<le> (of_int x :: rat)" and "(of_int x :: rat) < pow2 (bitlen x)"
proof -
  from bitlen_bounds[OF assms]
  have l: "2 ^ nat (bitlen x - 1) \<le> x" and u: "x < 2 ^ nat (bitlen x)" by simp_all
  have b: "1 \<le> bitlen x"
    using assms by (simp add: bitlen_alt_def)
  have "(of_int (2 ^ nat (bitlen x - 1)) :: rat) \<le> of_int x"
    using l by (simp only: of_int_le_iff)
  then show "pow2 (bitlen x - 1) \<le> (of_int x :: rat)"
    using b by (simp add: pow2_def)
  have "(of_int x :: rat) < of_int (2 ^ nat (bitlen x))"
    using u by (simp only: of_int_less_iff)
  then show "(of_int x :: rat) < pow2 (bitlen x)"
    using b by (simp add: pow2_def)
qed

lemma ilog2_bounds:
  assumes "0 < a"
  shows "pow2 (ilog2 a) \<le> a" and "a < pow2 (ilog2 a + 1)"
proof -
  obtain n d where q: "quotient_of a = (n, d)" by (cases "quotient_of a")
  have d: "0 < d" using q by (rule quotient_of_denom_pos)
  have a: "a = of_int n / of_int d" using q by (rule quotient_of_div)
  have n: "0 < n"
    using assms d by (simp add: a zero_less_divide_iff)
  let ?k = "bitlen n - bitlen d"
  note bn = of_int_bitlen_bounds[OF n] and bd = of_int_bitlen_bounds[OF d]
  have dpos: "(0 :: rat) < of_int d" using d by simp
  have up: "a < pow2 (?k + 1)"
  proof -
    have "of_int n < pow2 (bitlen n)" by (rule bn(2))
    also have "pow2 (bitlen n) = pow2 (?k + 1) * pow2 (bitlen d - 1)"
      by (simp add: pow2_add[symmetric])
    also have "\<dots> \<le> pow2 (?k + 1) * of_int d"
      using bd(1) pow2_pos[of "?k + 1"] by (simp add: mult_left_mono)
    finally show ?thesis using dpos by (simp add: a pos_divide_less_eq)
  qed
  have lo: "pow2 (?k - 1) < a"
  proof -
    have "pow2 (?k - 1) * of_int d < pow2 (?k - 1) * pow2 (bitlen d)"
      using bd(2) pow2_pos[of "?k - 1"] by (simp add: mult_strict_left_mono)
    also have "\<dots> = pow2 (bitlen n - 1)"
      by (simp add: pow2_add[symmetric])
    also have "\<dots> \<le> of_int n" by (rule bn(1))
    finally show ?thesis using dpos by (simp add: a pos_less_divide_eq)
  qed
  show "pow2 (ilog2 a) \<le> a"
    using lo by (auto simp: ilog2_def q Let_def)
  show "a < pow2 (ilog2 a + 1)"
    using up by (auto simp: ilog2_def q Let_def)
qed

lemma ilog2_unique:
  assumes "pow2 k \<le> a" and "a < pow2 (k + 1)"
  shows "ilog2 a = k"
proof -
  have pos: "0 < a" using assms(1) pow2_pos[of k] by simp
  note b = ilog2_bounds[OF pos]
  have "pow2 k < pow2 (ilog2 a + 1)" using assms(1) b(2) by simp
  then have 1: "k \<le> ilog2 a" by (simp add: pow2_less_iff)
  have "pow2 (ilog2 a) < pow2 (k + 1)" using assms(2) b(1) by simp
  then have 2: "ilog2 a \<le> k" by (simp add: pow2_less_iff)
  from 1 2 show ?thesis by simp
qed

text \<open>
  Rounding to a double never passes an integer below \<open>2\<^sup>5\<^sup>3\<close>, which is a double itself.
  So a weight between 0 and 1 gives a bound of at most \<open>test_size\<close>.
\<close>

lemma py_round_nonneg: "0 \<le> x \<Longrightarrow> 0 \<le> py_round x"
  by (auto simp: py_round_def Let_def intro: add_nonneg_nonneg)

lemma float_round_nonneg:
  assumes "0 \<le> x"
  shows "0 \<le> float_round x"
proof (cases "x = 0")
  case True
  then show ?thesis by (simp add: float_round_def)
next
  case False
  with assms have "0 < x" by simp
  then have "0 \<le> x / pow2 (max (ilog2 x) (- 1022) - 52)"
    using pow2_pos[of "max (ilog2 x) (- 1022) - 52"] by simp
  from py_round_nonneg[OF this] \<open>0 < x\<close> show ?thesis
    using pow2_pos[of "max (ilog2 x) (- 1022) - 52"]
    by (simp add: float_round_def Let_def)
qed

lemma float_round_le_int:
  assumes "0 < x" and "x \<le> of_int m" and "m < 2 ^ 53"
  shows "float_round x \<le> of_int m"
proof -
  let ?e = "max (ilog2 x) (- 1022)"
  have "pow2 (ilog2 x) \<le> x" using assms(1) by (rule ilog2_bounds)
  also have "x \<le> of_int m" by (rule assms(2))
  also have "(of_int m :: rat) < of_int (2 ^ 53)" using assms(3) by (simp only: of_int_less_iff)
  also have "(of_int (2 ^ 53) :: rat) = pow2 53" by (simp add: pow2_def)
  finally have "ilog2 x < 53" by (simp add: pow2_less_iff)
  then have e: "?e \<le> 52" by simp
  define j where "j = nat (52 - ?e)"
  have ulp: "pow2 (?e - 52) = 1 / 2 ^ j"
    using e by (simp add: pow2_def j_def) 
  have "x / pow2 (?e - 52) = x * 2 ^ j" by (simp add: ulp)
  also have "\<dots> \<le> of_int m * 2 ^ j" using assms(2) by (simp add: mult_right_mono)
  also have "\<dots> = of_int (m * 2 ^ j)" by simp
  finally have "py_round (x / pow2 (?e - 52)) \<le> m * 2 ^ j" by (rule py_round_le)
  then have "(of_int (py_round (x / pow2 (?e - 52))) :: rat) \<le> of_int (m * 2 ^ j)"
    by (simp only: of_int_le_iff)
  then have "(of_int (py_round (x / pow2 (?e - 52))) :: rat) * (1 / 2 ^ j) \<le> of_int m"
    by (simp add: field_simps)
  then show ?thesis
    using assms(1) by (simp add: float_round_def Let_def ulp)
qed

lemma float_round_le_nat:
  assumes "0 \<le> x" and "x \<le> of_nat n" and "n < 2 ^ 53"
  shows "float_round x \<le> of_nat n"
proof (cases "x = 0")
  case True
  then show ?thesis by (simp add: float_round_def)
next
  case False
  with assms(1) have "0 < x" by simp
  moreover have "x \<le> of_int (int n)" using assms(2) by simp
  moreover have "int n < 2 ^ 53" using assms(3) by (metis of_nat_less_iff of_nat_numeral of_nat_power)
  ultimately have "float_round x \<le> of_int (int n)" by (rule float_round_le_int)
  then show ?thesis by simp
qed

lemma float_not_inf:
  assumes "0 \<le> y" and "y \<le> of_nat n" and "n < 2 ^ 53"
  shows "\<not> float_is_inf y"
proof
  assume "float_is_inf y"
  then have y: "y \<noteq> 0" and l: "1024 \<le> ilog2 \<bar>y\<bar>" by (simp_all add: float_is_inf_def)
  from y assms(1) have pos: "0 < y" by simp
  have "pow2 53 \<le> pow2 (ilog2 y)" using l pos by (simp add: pow2_le_iff)
  also have "\<dots> \<le> y" using pos by (rule ilog2_bounds)
  also have "y \<le> of_nat n" by (rule assms(2))
  also have "(of_nat n :: rat) < of_nat (2 ^ 53)" using assms(3) by (simp only: of_nat_less_iff)
  also have "(of_nat (2 ^ 53) :: rat) = pow2 53" by (simp add: pow2_def)
  finally show False by simp
qed

lemma weight_at_most_one_fits:
  assumes "0 \<le> p" and "p \<le> 1" and "n < 2 ^ 53"
  shows "count_fits p n n"
proof -
  define fn where "fn = float_round (of_nat n)"
  define fp where "fp = float_round p"
  define product where "product = float_round (fp * fn)"
  have fn0: "0 \<le> fn" unfolding fn_def by (rule float_round_nonneg) simp
  have fn1: "fn \<le> of_nat n" unfolding fn_def using assms(3) by (intro float_round_le_nat) simp_all
  have fp0: "0 \<le> fp" unfolding fp_def using assms(1) by (rule float_round_nonneg)
  have "fp \<le> of_nat 1" unfolding fp_def using assms(1,2) by (intro float_round_le_nat) simp_all
  then have fp1: "fp \<le> 1" by simp
  have m0: "0 \<le> fp * fn" using fp0 fn0 by simp
  have "fp * fn \<le> 1 * fn" using fp1 fn0 by (rule mult_right_mono)
  then have m1: "fp * fn \<le> of_nat n" using fn1 by simp
  have pr0: "0 \<le> product" unfolding product_def using m0 by (rule float_round_nonneg)
  have pr1: "product \<le> of_nat n" unfolding product_def using m0 m1 assms(3) by (rule float_round_le_nat)
  have i1: "\<not> float_is_inf fn" using fn0 fn1 assms(3) by (rule float_not_inf)
  have i2: "\<not> float_is_inf product" using pr0 pr1 assms(3) by (rule float_not_inf)
  have "product \<le> of_int (int n)" using pr1 by simp
  then have "py_round product \<le> int n" by (rule py_round_le)
  then have "nat (py_round product) \<le> n" by simp
  then show ?thesis
    using i1 i2 by (simp add: count_fits_def evolution_count_def Let_def fn_def fp_def product_def)
qed

text \<open>
  Products that are not exact in binary round as Python rounds them: \<^verbatim>\<open>0.7 * 45\<close> is
  \<^verbatim>\<open>31.499999999999996\<close> and gives 31, where the exact product 31.5 would give 32.
\<close>

lemma float_products_as_in_python:
  "evolution_count (7 / 10) 45 = Inr 31"
  "evolution_count (3 / 10) 45 = Inr 14"
  "evolution_count (35 / 100) 90 = Inr 31"
  "evolution_count (45 / 100) 110 = Inr 50"
  "evolution_count (55 / 100) 110 = Inr 61"
  "evolution_count (1 / 2) 3 = Inr 2"
  "evolution_count (- 1 / 2) 4 = Inr 0"
  by code_simp+

text \<open>
  The sums of the first loop at weights whose products are not exact: 45 for
  \<^verbatim>\<open>{0.7, 0.3}\<close> and 45 rows, 89 for \<^verbatim>\<open>{0.35, 0.65}\<close> and 90 rows, 111 for
  \<^verbatim>\<open>{0.45, 0.55}\<close> and 110 rows.
\<close>

lemma rounded_totals_as_in_python:
  "rounded_total [(simple, 7 / 10), (reasoning, 3 / 10)] 45 = 45"
  "rounded_total [(simple, 35 / 100), (reasoning, 65 / 100)] 90 = 89"
  "rounded_total [(simple, 45 / 100), (reasoning, 55 / 100)] 110 = 111"
  by code_simp+

text \<open>A double is its own rounding; the decimal 0.7 stands for the double next to it.\<close>

lemma float_round_examples:
  "float_round (1 / 2) = 1 / 2"
  "float_round (7 / 10) = 6305039478318694 / 9007199254740992"
  "float_round (6305039478318694 / 9007199254740992) = 6305039478318694 / 9007199254740992"
  "float_round (2 ^ 53 + 1) = 2 ^ 53"
  by code_simp+

lemma submit_step_Inr:
  assumes "execs s \<noteq> []"
  shows "submit_step re t s =
    Inr \<lparr>execs = (if total_evolutions s mod 10 = 9
                   then butlast (execs s) @ [submit t (last (execs s)), new_Executor (length (execs s)) re]
                   else butlast (execs s) @ [submit t (last (execs s))]),
         total_evolutions = Suc (total_evolutions s),
         trace = trace s @ [Submit t]\<rparr>"
  using assms by (simp add: submit_step_def max_parallel_process_def Let_def)

lemma assignments_snoc:
  assumes "xs \<noteq> []"
  shows "concat (map jobs (butlast xs @ [submit t (last xs)])) = concat (map jobs xs) @ [t]"
proof -
  have "concat (map jobs xs) = concat (map jobs (butlast xs @ [last xs]))"
    using assms by simp
  then show ?thesis by (simp add: submit_def)
qed

lemma submit_step_props:
  assumes "submit_step re t s = Inr s'"
  shows "execs s \<noteq> []" and "execs s' \<noteq> []"
    and "total_evolutions s' = Suc (total_evolutions s)"
    and "trace s' = trace s @ [Submit t]"
    and "assignments s' = assignments s @ [t]"
proof -
  show ne: "execs s \<noteq> []" using assms by (auto simp: submit_step_def)
  note eq = assms[unfolded submit_step_Inr[OF ne]]
  show "execs s' \<noteq> []" using eq by (auto split: if_splits)
  show "total_evolutions s' = Suc (total_evolutions s)" using eq by auto
  show "trace s' = trace s @ [Submit t]" using eq by auto
  have "concat (map jobs (butlast (execs s) @ [submit t (last (execs s)), new_Executor (length (execs s)) re]))
        = concat (map jobs (butlast (execs s) @ [submit t (last (execs s))]))"
    by (simp add: new_Executor_def)
  then show "assignments s' = assignments s @ [t]"
    using eq assignments_snoc[OF ne, of t] by (auto simp: assignments_def split: if_splits)
qed

lemma submit_step_inv:
  assumes "submit_step re t s = Inr s'" and "sched_inv s"
  shows "sched_inv s'"
proof -
  have ne: "execs s \<noteq> []" using assms(2) by (simp add: sched_inv_def)
  note eq = assms(1)[unfolded submit_step_Inr[OF ne]]
  have len: "length (execs s) = total_evolutions s div 10 + 1"
    and full: "list_all (\<lambda>ex. length (jobs ex) = 10) (butlast (execs s))"
    and rest: "length (jobs (last (execs s))) = total_evolutions s mod 10"
    using assms(2) by (simp_all add: sched_inv_def max_parallel_process_def)
  show ?thesis
  proof (cases "total_evolutions s mod 10 = 9")
    case True
    then have s': "s' = \<lparr>execs = butlast (execs s) @ [submit t (last (execs s)), new_Executor (length (execs s)) re],
         total_evolutions = Suc (total_evolutions s), trace = trace s @ [Submit t]\<rparr>"
      using eq by simp
    have d: "Suc (total_evolutions s) div 10 = total_evolutions s div 10 + 1"
      and m: "Suc (total_evolutions s) mod 10 = 0"
      using True by (simp_all add: div_Suc mod_Suc)
    have b: "butlast (butlast (execs s) @ [submit t (last (execs s)), new_Executor (length (execs s)) re])
         = butlast (execs s) @ [submit t (last (execs s))]"
      by (simp add: butlast_append)
    have l: "last (butlast (execs s) @ [submit t (last (execs s)), new_Executor (length (execs s)) re])
         = new_Executor (length (execs s)) re"
      by simp
    have c1: "length (execs s') = total_evolutions s' div 10 + 1"
      using len d ne by (simp add: s')
    have be: "butlast (execs s') = butlast (execs s) @ [submit t (last (execs s))]"
      by (simp add: s' butlast_append)
    have c2: "list_all (\<lambda>ex. length (jobs ex) = 10) (butlast (execs s'))"
      using full rest True by (simp add: be submit_def)
    have c3: "length (jobs (last (execs s'))) = total_evolutions s' mod 10"
      using m by (simp add: s' l new_Executor_def del: last_append)
    have c0: "execs s' \<noteq> []" by (simp add: s')
    show ?thesis
      unfolding sched_inv_def max_parallel_process_def using c0 c1 c2 c3 by blast
  next
    case False
    then have s': "s' = \<lparr>execs = butlast (execs s) @ [submit t (last (execs s))],
         total_evolutions = Suc (total_evolutions s), trace = trace s @ [Submit t]\<rparr>"
      using eq by simp
    have d: "Suc (total_evolutions s) div 10 = total_evolutions s div 10"
      and m: "Suc (total_evolutions s) mod 10 = total_evolutions s mod 10 + 1"
      using False by (simp_all add: div_Suc mod_Suc)
    have c1: "length (execs s') = total_evolutions s' div 10 + 1"
      using len d ne by (simp add: s')
    have c2: "list_all (\<lambda>ex. length (jobs ex) = 10) (butlast (execs s'))"
      using full by (simp add: s')
    have c3: "length (jobs (last (execs s'))) = total_evolutions s' mod 10"
      using m rest by (simp add: s' submit_def)
    have c0: "execs s' \<noteq> []" by (simp add: s')
    show ?thesis
      unfolding sched_inv_def max_parallel_process_def using c0 c1 c2 c3 by blast
  qed
qed

lemma full_units_length:
  "list_all (\<lambda>ex. length (jobs ex) = c) ys \<Longrightarrow>
   length (concat (map jobs (ys @ [y]))) = c * length ys + length (jobs y)"
  by (induction ys) simp_all

lemma sched_inv_length:
  assumes "sched_inv s"
  shows "length (assignments s) = total_evolutions s"
proof -
  have ne: "execs s \<noteq> []" using assms by (simp add: sched_inv_def)
  have "length (concat (map jobs (butlast (execs s) @ [last (execs s)]))) =
        10 * length (butlast (execs s)) + length (jobs (last (execs s)))"
    using assms by (intro full_units_length) (simp add: sched_inv_def max_parallel_process_def)
  then have "length (concat (map jobs (execs s))) =
        10 * (length (execs s) - 1) + length (jobs (last (execs s)))"
    using ne by simp
  then show ?thesis
    using assms by (simp add: sched_inv_def max_parallel_process_def assignments_def)
qed

subsection \<open>The scheduling loops\<close>

lemma evolution_loop_props:
  assumes "evolution_loop re cn ev js s = Inr s'" and "sched_inv s"
  shows "sched_inv s' \<and>
         total_evolutions s' = total_evolutions s + length js \<and>
         assignments s' =
           assignments s @ map (\<lambda>i. \<lparr>fn = ev, arg = cn ! i, name = (ev, i)\<rparr>) js \<and>
         trace s' =
           trace s @ map (\<lambda>i. Submit \<lparr>fn = ev, arg = cn ! i, name = (ev, i)\<rparr>) js \<and>
         list_all (\<lambda>i. i < length cn) js"
  using assms
proof (induction js arbitrary: s)
  case Nil
  then show ?case by simp
next
  case (Cons i js)
  from Cons.prems(1) have i: "i < length cn"
    by (simp split: if_splits)
  from Cons.prems(1) i obtain s1 where
    s1: "submit_step re \<lparr>fn = ev, arg = cn ! i, name = (ev, i)\<rparr> s = Inr s1"
    and rest: "evolution_loop re cn ev js s1 = Inr s'"
    by (auto split: sum.splits)
  have inv1: "sched_inv s1" using s1 Cons.prems(2) by (rule submit_step_inv)
  from Cons.IH[OF rest inv1] submit_step_props(3,4,5)[OF s1] i
  show ?case by simp
qed

lemma evolution_loop_succeeds:
  assumes "sched_inv s" and "list_all (\<lambda>i. i < length cn) js"
  shows "\<exists>s'. evolution_loop re cn ev js s = Inr s'"
  using assms
proof (induction js arbitrary: s)
  case Nil
  then show ?case by simp
next
  case (Cons i js)
  have ne: "execs s \<noteq> []" using Cons.prems(1) by (simp add: sched_inv_def)
  obtain s1 where s1: "submit_step re \<lparr>fn = ev, arg = cn ! i, name = (ev, i)\<rparr> s = Inr s1"
    using submit_step_Inr[OF ne] by blast
  have inv1: "sched_inv s1" using s1 Cons.prems(1) by (rule submit_step_inv)
  from Cons.IH[OF inv1] Cons.prems(2) s1 show ?case by simp
qed

lemma distributions_loop_props:
  assumes "distributions_loop re cn n ds s = Inr s'" and "sched_inv s"
  shows "sched_inv s' \<and>
         total_evolutions s' = total_evolutions s + rounded_total ds n \<and>
         assignments s' = assignments s @ rounded_assignments cn ds n \<and>
         list_all (\<lambda>(ev, p). count_fits p n (length cn)) ds"
  using assms
proof (induction ds arbitrary: s)
  case Nil
  then show ?case by (simp add: rounded_total_def rounded_assignments_def)
next
  case (Cons d ds)
  obtain ev p where d: "d = (ev, p)" by (cases d)
  from Cons.prems(1) obtain bound where b: "evolution_count p n = Inr bound"
    by (auto simp: d split: sum.splits)
  then have rc: "rounded_count p n = bound" by (simp add: rounded_count_def)
  from Cons.prems(1) b obtain s1 where
    s1: "evolution_loop re cn ev [0..<bound] s = Inr s1"
    and rest: "distributions_loop re cn n ds s1 = Inr s'"
    by (auto simp: d split: sum.splits)
  note e = evolution_loop_props[OF s1 Cons.prems(2)]
  have le: "bound \<le> length cn"
  proof (rule ccontr)
    assume "\<not> bound \<le> length cn"
    then have "length cn \<in> set [0..<bound]" by simp
    with e show False by (auto simp: list_all_iff)
  qed
  have fits: "count_fits p n (length cn)"
    using b le by (simp add: count_fits_def)
  from Cons.IH[OF rest] e fits rc show ?case
    by (simp add: d rounded_total_def rounded_assignments_def)
qed

lemma distributions_loop_succeeds:
  assumes "sched_inv s" and "list_all (\<lambda>(ev, p). count_fits p n (length cn)) ds"
  shows "\<exists>s'. distributions_loop re cn n ds s = Inr s'"
  using assms
proof (induction ds arbitrary: s)
  case Nil
  then show ?case by simp
next
  case (Cons d ds)
  obtain ev p where d: "d = (ev, p)" by (cases d)
  from Cons.prems(2) obtain bound where b: "evolution_count p n = Inr bound"
    and le: "bound \<le> length cn"
    by (auto simp: d count_fits_def split: sum.splits)
  have "list_all (\<lambda>i. i < length cn) [0..<bound]"
    using le by (auto simp: list_all_iff)
  from evolution_loop_succeeds[OF Cons.prems(1) this]
  obtain s1 where s1: "evolution_loop re cn ev [0..<bound] s = Inr s1"
    by blast
  have "sched_inv s1" using evolution_loop_props[OF s1 Cons.prems(1)] by simp
  from Cons.IH[OF this] Cons.prems(2) s1 b show ?case by (simp add: d)
qed

lemma filler_loop_props:
  assumes "filler_loop re cn evs s = Inr s'" and "sched_inv s"
  shows "sched_inv s' \<and>
         total_evolutions s' = total_evolutions s + length evs \<and>
         assignments s' = assignments s @ filler_assignments cn evs (total_evolutions s)"
  using assms
proof (induction evs arbitrary: s)
  case Nil
  then show ?case by (simp add: filler_assignments_def)
next
  case (Cons ev evs)
  from Cons.prems(1) have i: "total_evolutions s < length cn"
    by (simp split: if_splits)
  from Cons.prems(1) i obtain s1 where
    s1: "submit_step re \<lparr>fn = ev, arg = cn ! total_evolutions s, name = (ev, total_evolutions s)\<rparr> s = Inr s1"
    and rest: "filler_loop re cn evs s1 = Inr s'"
    by (auto split: sum.splits)
  have inv1: "sched_inv s1" using s1 Cons.prems(2) by (rule submit_step_inv)
  have up: "[total_evolutions s..<total_evolutions s + length (ev # evs)] =
        total_evolutions s # [Suc (total_evolutions s)..<Suc (total_evolutions s) + length evs]"
  proof -
    have "[total_evolutions s..<total_evolutions s + Suc (length evs)] =
          total_evolutions s # [Suc (total_evolutions s)..<total_evolutions s + Suc (length evs)]"
      by (rule upt_conv_Cons) simp
    then show ?thesis by simp
  qed
  from Cons.IH[OF rest inv1] submit_step_props(3,4,5)[OF s1] i
  show ?case unfolding filler_assignments_def up by simp
qed

lemma filler_loop_succeeds:
  assumes "sched_inv s" and "total_evolutions s + length evs \<le> length cn"
  shows "\<exists>s'. filler_loop re cn evs s = Inr s'"
  using assms
proof (induction evs arbitrary: s)
  case Nil
  then show ?case by simp
next
  case (Cons ev evs)
  have ne: "execs s \<noteq> []" using Cons.prems(1) by (simp add: sched_inv_def)
  obtain s1 where s1: "submit_step re \<lparr>fn = ev, arg = cn ! total_evolutions s, name = (ev, total_evolutions s)\<rparr> s = Inr s1"
    using submit_step_Inr[OF ne] by blast
  have inv1: "sched_inv s1" using s1 Cons.prems(1) by (rule submit_step_inv)
  have "total_evolutions s1 + length evs \<le> length cn"
    using submit_step_props(3)[OF s1] Cons.prems(2) by simp
  from Cons.IH[OF inv1 this] Cons.prems(2) s1 show ?case by simp
qed

lemma initial_sched_inv:
  "sched_inv \<lparr>execs = [new_Executor 0 re], total_evolutions = 0, trace = tr\<rparr>"
  by (simp add: sched_inv_def new_Executor_def)

lemma initial_assignments:
  "assignments \<lparr>execs = [new_Executor 0 re], total_evolutions = 0, trace = tr\<rparr> = []"
  by (simp add: assignments_def new_Executor_def)

lemma choices_length: "choices rng population k = Inr evs \<Longrightarrow> length evs = k"
  by (auto simp: choices_def split: if_splits)

lemma choices_succeeds: "population \<noteq> [] \<Longrightarrow> \<exists>evs. choices rng population k = Inr evs"
  by (simp add: choices_def)

lemma length_rounded_assignments:
  "length (rounded_assignments cn ds n) = rounded_total ds n"
  by (induction ds) (auto simp: rounded_assignments_def rounded_total_def)

lemma length_filler_assignments:
  "length (filler_assignments cn evs k) = length evs"
  by (simp add: filler_assignments_def)

lemma schedule_props:
  assumes "schedule ds rng n dists re = Inr s"
  shows "\<exists>sampled filler.
           get_random_nodes ds n None = Some sampled \<and>
           sched_inv s \<and>
           list_all (\<lambda>(ev, p). count_fits p n (length sampled)) dists \<and>
           choices rng (map fst dists) (n - rounded_total dists n) = Inr filler \<and>
           length filler = n - rounded_total dists n \<and>
           assignments s =
             rounded_assignments (initial_current_nodes sampled) dists n @
             filler_assignments (initial_current_nodes sampled) filler (rounded_total dists n)"
proof -
  let ?s0 = "\<lparr>execs = [new_Executor 0 re], total_evolutions = 0,
               trace = SetRunConfig # map InitEvolution (map fst dists) @ [GetRandomNodes n]\<rparr>"
  from assms obtain sampled where sampled: "get_random_nodes ds n None = Some sampled"
    by (auto simp: schedule_def Let_def split: option.splits)
  let ?cn = "initial_current_nodes sampled"
  from assms sampled obtain s1 where s1: "distributions_loop re ?cn n dists ?s0 = Inr s1"
    by (auto simp: schedule_def Let_def split: sum.splits)
  note p1 = distributions_loop_props[OF s1 initial_sched_inv]
  have t1: "total_evolutions s1 = rounded_total dists n"
    and a1: "assignments s1 = rounded_assignments ?cn dists n"
    and i1: "sched_inv s1"
    and c1: "list_all (\<lambda>(ev, p). count_fits p n (length sampled)) dists"
    using p1 by (simp_all add: initial_assignments initial_current_nodes_def)
  show ?thesis
  proof (cases "total_evolutions s1 \<le> n")
    case True
    with assms sampled s1 obtain filler where
      f: "choices rng (map fst dists) (n - total_evolutions s1) = Inr filler"
      and s: "filler_loop re ?cn filler s1 = Inr s"
      by (auto simp: schedule_def Let_def split: sum.splits)
    note p2 = filler_loop_props[OF s i1]
    have "length filler = n - rounded_total dists n"
      using choices_length[OF f] t1 by simp
    with p2 a1 t1 c1 sampled f show ?thesis by auto
  next
    case False
    with assms sampled s1 have "s = s1"
      by (simp add: schedule_def Let_def)
    with False t1 a1 i1 c1 sampled show ?thesis
      by (auto simp: filler_assignments_def choices_def intro!: exI[of _ "[]"])
  qed
qed

lemma schedule_succeeds:
  assumes "get_random_nodes ds n None = Some sampled" and "length sampled = n"
    and "list_all (\<lambda>(ev, p). count_fits p n n) dists" and "dists \<noteq> []"
  shows "\<exists>s. schedule ds rng n dists re = Inr s"
proof -
  let ?s0 = "\<lparr>execs = [new_Executor 0 re], total_evolutions = 0,
               trace = SetRunConfig # map InitEvolution (map fst dists) @ [GetRandomNodes n]\<rparr>"
  let ?cn = "initial_current_nodes sampled"
  have len: "length ?cn = n" using assms(2) by (simp add: initial_current_nodes_def)
  have "list_all (\<lambda>(ev, p). count_fits p n (length ?cn)) dists"
    using assms(3) by (simp add: len)
  from distributions_loop_succeeds[OF initial_sched_inv this]
  obtain s1 where s1: "distributions_loop re ?cn n dists ?s0 = Inr s1" by blast
  note p1 = distributions_loop_props[OF s1 initial_sched_inv]
  show ?thesis
  proof (cases "total_evolutions s1 \<le> n")
    case True
    obtain filler where f: "choices rng (map fst dists) (n - total_evolutions s1) = Inr filler"
      using choices_succeeds[of "map fst dists"] assms(4) by auto
    have "total_evolutions s1 + length filler \<le> length ?cn"
      using choices_length[OF f] True len by simp
    from filler_loop_succeeds[OF _ this] p1
    obtain s where "filler_loop re ?cn filler s1 = Inr s" by blast
    with True f s1 assms(1) show ?thesis
      by (simp add: schedule_def Let_def)
  next
    case False
    with s1 assms(1) show ?thesis by (simp add: schedule_def Let_def)
  qed
qed

lemma ceiling_div_ten:
  "\<lceil>(of_nat m :: rat) / 10\<rceil> = int (m div 10) + (if m mod 10 = 0 then 0 else 1)"
proof -
  have "(of_nat (10 * (m div 10) + m mod 10) :: rat) = of_nat m"
    by (simp only: mult_div_mod_eq)
  then have "10 * of_nat (m div 10) + of_nat (m mod 10) = (of_nat m :: rat)"
    by (simp only: of_nat_add of_nat_mult of_nat_numeral)
  then have "(of_nat m :: rat) / 10 = (10 * of_nat (m div 10) + of_nat (m mod 10)) / 10"
    by (rule arg_cong[where f = "\<lambda>y. y / 10", OF sym])
  then have x: "(of_nat m :: rat) / 10 = of_nat (m div 10) + of_nat (m mod 10) / 10"
    by (simp add: add_divide_distrib)
  have r: "(of_nat (m mod 10) :: rat) < 10"
    by (metis mod_less_divisor of_nat_less_iff of_nat_numeral zero_less_numeral)
  show ?thesis
  proof (cases "m mod 10 = 0")
    case True
    then show ?thesis using x by simp
  next
    case False
    then have p: "(0 :: rat) < of_nat (m mod 10)" by simp
    have "\<lceil>(of_nat m :: rat) / 10\<rceil> = int (m div 10) + 1"
      unfolding x using p r by (intro ceiling_unique) simp_all
    then show ?thesis using False by simp
  qed
qed

subsection \<open>Executors and batches\<close>

text \<open>
  C5 (as the code has it). After scheduling, the assignments are the jobs of the
  executors in order; every executor but the last holds exactly
  \<open>max_parallel_process = 10\<close> jobs, the last holds the remainder, so no executor
  holds more than 10. There are \<open>M div 10 + 1\<close> executors for \<open>M\<close> assignments:
  that is \<open>\<lceil>M / 10\<rceil>\<close> when 10 does not divide \<open>M\<close>, and one more (a last
  executor without jobs) when it does.
\<close>

theorem executors_per_batch:
  assumes "schedule ds rng n dists re = Inr s"
  shows "assignments s = concat (map jobs (execs s)) \<and>
         length (execs s) = length (assignments s) div max_parallel_process + 1 \<and>
         int (length (execs s)) =
           \<lceil>(of_nat (length (assignments s)) :: rat) / of_nat max_parallel_process\<rceil> +
           (if length (assignments s) mod max_parallel_process = 0 then 1 else 0) \<and>
         list_all (\<lambda>ex. length (jobs ex) \<le> max_parallel_process) (execs s) \<and>
         list_all (\<lambda>ex. length (jobs ex) = max_parallel_process) (butlast (execs s)) \<and>
         length (jobs (last (execs s))) = length (assignments s) mod max_parallel_process"
proof -
  from schedule_props[OF assms] have inv: "sched_inv s" by blast
  note len = sched_inv_length[OF inv]
  have ne: "execs s \<noteq> []"
    and n: "length (execs s) = length (assignments s) div max_parallel_process + 1"
    and full: "list_all (\<lambda>ex. length (jobs ex) = max_parallel_process) (butlast (execs s))"
    and rest: "length (jobs (last (execs s))) = length (assignments s) mod max_parallel_process"
    using inv by (simp_all add: sched_inv_def len)
  have "list_all (\<lambda>ex. length (jobs ex) \<le> max_parallel_process) (butlast (execs s) @ [last (execs s)])"
    using full rest by (simp add: list_all_iff max_parallel_process_def)
  then have le: "list_all (\<lambda>ex. length (jobs ex) \<le> max_parallel_process) (execs s)"
    using ne by simp
  have c: "int (length (execs s)) =
           \<lceil>(of_nat (length (assignments s)) :: rat) / of_nat max_parallel_process\<rceil> +
           (if length (assignments s) mod max_parallel_process = 0 then 1 else 0)"
    using n by (simp add: max_parallel_process_def ceiling_div_ten)
  show ?thesis using n c le full rest by (simp add: assignments_def)
qed

text \<open>Seven assignments: one executor, holding all seven.\<close>

theorem executors_per_batch_witness:
  "schedule ten_nodes (\<lambda>j. 0) 7 [(simple, 1)] False =
     Inr (projr (schedule ten_nodes (\<lambda>j. 0) 7 [(simple, 1)] False)) \<and>
   length (assignments (projr (schedule ten_nodes (\<lambda>j. 0) 7 [(simple, 1)] False))) = 7 \<and>
   length (execs (projr (schedule ten_nodes (\<lambda>j. 0) 7 [(simple, 1)] False))) = 1 \<and>
   list_all (\<lambda>ex. length (jobs ex) \<le> max_parallel_process)
     (execs (projr (schedule ten_nodes (\<lambda>j. 0) 7 [(simple, 1)] False)))"
proof -
  have "\<not> isl (schedule ten_nodes (\<lambda>j. 0) 7 [(simple, 1)] False)"
    by code_simp
  then have h: "schedule ten_nodes (\<lambda>j. 0) 7 [(simple, 1)] False =
     Inr (projr (schedule ten_nodes (\<lambda>j. 0) 7 [(simple, 1)] False))"
    by simp
  have a: "length (assignments (projr (schedule ten_nodes (\<lambda>j. 0) 7 [(simple, 1)] False))) = 7"
    by code_simp
  from executors_per_batch[OF h] a h show ?thesis
    by (simp add: max_parallel_process_def)
qed

text \<open>
  Ten assignments give two executors, the second without jobs, where
  \<open>\<lceil>10 / 10\<rceil> = 1\<close>.
\<close>

theorem executors_ceiling_counterexample:
  "(case schedule ten_nodes (\<lambda>j. 0) 10 [(simple, 1)] False of
      Inl f \<Rightarrow> False
    | Inr s \<Rightarrow>
        length (assignments s) = 10 \<and>
        map (\<lambda>ex. length (jobs ex)) (execs s) = [10, 0] \<and>
        int (length (execs s)) \<noteq>
          \<lceil>(of_nat (length (assignments s)) :: rat) / of_nat max_parallel_process\<rceil>)"
  by code_simp

subsection \<open>Rounding and backfill\<close>

text \<open>
  C3 (as the code has it). In a run whose scheduling completes, every bound
  \<^verbatim>\<open>round(probability * test_size)\<close> was computed without error, in floating point. The
  assignments are those of the rounding loop, \<open>rounded_count\<close> per strategy (the bound
  when it is positive, none otherwise), followed by those of the backfill, one per drawn
  strategy; \<open>test_size - rounded_total\<close> strategies are drawn, none when the loop
  already made \<open>test_size\<close> assignments or more. So a backfill assignment exists
  only on a shortfall, and whenever the loop makes at most \<open>test_size\<close> assignments
  the total is exactly \<open>test_size\<close>. When it makes more, nothing is capped: the
  total is the loop's.
\<close>

theorem backfill_only_on_shortfall:
  assumes "schedule ds rng n dists re = Inr s"
  shows "\<exists>sampled filler.
           get_random_nodes ds n None = Some sampled \<and>
           list_all (\<lambda>(ev, p). evolution_count p n = Inr (rounded_count p n)) dists \<and>
           choices rng (map fst dists) (n - rounded_total dists n) = Inr filler \<and>
           assignments s =
             rounded_assignments (initial_current_nodes sampled) dists n @
             filler_assignments (initial_current_nodes sampled) filler (rounded_total dists n) \<and>
           length (rounded_assignments (initial_current_nodes sampled) dists n) =
             rounded_total dists n \<and>
           length (filler_assignments (initial_current_nodes sampled) filler
                     (rounded_total dists n)) = n - rounded_total dists n \<and>
           (filler \<noteq> [] \<longrightarrow> rounded_total dists n < n) \<and>
           (rounded_total dists n \<le> n \<longrightarrow> length (assignments s) = n) \<and>
           (n < rounded_total dists n \<longrightarrow> length (assignments s) = rounded_total dists n)"
proof -
  from schedule_props[OF assms] obtain sampled filler where
    s: "get_random_nodes ds n None = Some sampled"
    and k: "list_all (\<lambda>(ev, p). count_fits p n (length sampled)) dists"
    and c: "choices rng (map fst dists) (n - rounded_total dists n) = Inr filler"
    and l: "length filler = n - rounded_total dists n"
    and a: "assignments s =
             rounded_assignments (initial_current_nodes sampled) dists n @
             filler_assignments (initial_current_nodes sampled) filler (rounded_total dists n)"
    by blast
  have f: "filler \<noteq> [] \<longrightarrow> rounded_total dists n < n"
    using l by (cases filler) auto
  have t: "length (assignments s) = rounded_total dists n + (n - rounded_total dists n)"
    using a l by (simp add: length_rounded_assignments length_filler_assignments)
  have e: "list_all (\<lambda>(ev, p). evolution_count p n = Inr (rounded_count p n)) dists"
    using k by (auto simp: list_all_iff count_fits_eq)
  show ?thesis
    using s e c a l f t
    by (intro exI[of _ sampled] exI[of _ filler])
       (simp add: length_rounded_assignments length_filler_assignments)
qed

text \<open>The default distribution with ten rows: the counts 5, 2, 2 leave one to backfill.\<close>

theorem backfill_only_on_shortfall_witness:
  "schedule ten_nodes (\<lambda>j. 0) 10 DEFAULT_DISTRIBUTION False =
     Inr (projr (schedule ten_nodes (\<lambda>j. 0) 10 DEFAULT_DISTRIBUTION False)) \<and>
   rounded_total DEFAULT_DISTRIBUTION 10 = 9 \<and>
   length (assignments (projr (schedule ten_nodes (\<lambda>j. 0) 10 DEFAULT_DISTRIBUTION False))) = 10"
proof -
  have "\<not> isl (schedule ten_nodes (\<lambda>j. 0) 10 DEFAULT_DISTRIBUTION False)"
    by code_simp
  then have h: "schedule ten_nodes (\<lambda>j. 0) 10 DEFAULT_DISTRIBUTION False =
     Inr (projr (schedule ten_nodes (\<lambda>j. 0) 10 DEFAULT_DISTRIBUTION False))"
    by simp
  have r: "rounded_total DEFAULT_DISTRIBUTION 10 = 9"
    by code_simp
  from backfill_only_on_shortfall[OF h] r h show ?thesis
    by auto
qed

text \<open>
  Three rows, two strategies of weight one half: each count is
  \<open>round(1.5) = 2\<close>, four assignments are made.
\<close>

theorem backfill_total_counterexample:
  "(case schedule ten_nodes (\<lambda>j. 0) 3 [(simple, 1 / 2), (reasoning, 1 / 2)] False of
      Inl f \<Rightarrow> False
    | Inr s \<Rightarrow>
        rounded_total [(simple, 1 / 2), (reasoning, 1 / 2)] 3 = 4 \<and>
        length (assignments s) = 4 \<and>
        map (\<lambda>t. (fn t, root_node (arg t))) (assignments s) =
          [(simple, 0), (simple, 1), (reasoning, 0), (reasoning, 1)])"
  by code_simp

subsection \<open>Which node an assignment takes\<close>

text \<open>
  C2 (the code at the default distribution, ten rows, nodes \<open>0, \<dots>, 9\<close>). The
  rounding loop indexes \<^verbatim>\<open>current_nodes\<close> by its own loop variable, which restarts at
  0 for every strategy: nodes 0 and 1 are taken three times each, nodes 5 to 8 never.
  Only the backfill loop indexes by the global counter.
\<close>

theorem default_distribution_reuses_nodes:
  "(case schedule ten_nodes (\<lambda>j. 0) 10 DEFAULT_DISTRIBUTION False of
      Inl f \<Rightarrow> []
    | Inr s \<Rightarrow> map (\<lambda>t. (fn t, root_node (arg t))) (assignments s)) =
   [(simple, 0), (simple, 1), (simple, 2), (simple, 3), (simple, 4),
    (reasoning, 0), (reasoning, 1), (multi_context, 0), (multi_context, 1), (simple, 9)]"
  by code_simp

subsection \<open>The configuration error\<close>

text \<open>Which errors the later stages of \<^verbatim>\<open>generate\<close> can raise.\<close>

lemma submit_step_error: "submit_step re t s = Inl (e, tr) \<Longrightarrow> e = IndexError"
  by (auto simp: submit_step_def Let_def split: if_splits)

lemma evolution_loop_error:
  "evolution_loop re cn ev js s = Inl (e, tr) \<Longrightarrow> e = IndexError"
proof (induction js arbitrary: s)
  case Nil
  then show ?case by simp
next
  case (Cons i js)
  then show ?case
    by (auto split: if_splits sum.splits dest: submit_step_error)
qed

lemma distributions_loop_error:
  "distributions_loop re cn n dists s = Inl (e, tr) \<Longrightarrow> e = IndexError \<or> e = OverflowError"
proof (induction dists arbitrary: s)
  case Nil
  then show ?case by simp
next
  case (Cons d dists)
  obtain ev p where d: "d = (ev, p)" by (cases d)
  from Cons show ?case
    by (auto simp: d evolution_count_def Let_def split: sum.splits if_splits
        dest: evolution_loop_error)
qed

lemma filler_loop_error:
  "filler_loop re cn evs s = Inl (e, tr) \<Longrightarrow> e = IndexError"
proof (induction evs arbitrary: s)
  case Nil
  then show ?case by simp
next
  case (Cons ev evs)
  then show ?case
    by (auto split: if_splits sum.splits dest: submit_step_error)
qed

lemma choices_error: "choices rng population k = Inl e \<Longrightarrow> e = IndexError"
  by (auto simp: choices_def split: if_splits)

lemma schedule_error:
  assumes "schedule ds rng n dists re = Inl (e, tr)"
  shows "e = IndexError \<or> e = OverflowError \<or> e = SamplingFailed"
proof (cases "get_random_nodes ds n None")
  case None
  with assms show ?thesis by (simp add: schedule_def Let_def)
next
  case (Some sampled)
  with assms show ?thesis
    by (auto simp: schedule_def Let_def split: sum.splits if_splits
        dest: distributions_loop_error filler_loop_error choices_error)
qed

lemma results_loop_error:
  "results_loop evolve exs acc tr0 = Inl (e, tr) \<Longrightarrow> e = EvolutionRaised"
proof (induction exs arbitrary: acc tr0)
  case Nil
  then show ?case by simp
next
  case (Cons ex exs)
  then show ?case
    by (auto simp: Executor_results_def Let_def split: if_splits)
qed

lemma generate_not_ValueError:
  assumes "check_if_sum_is_close (map snd dists) 1 3"
  shows "snd (generate ds evolve rng n dists re) \<noteq> Inl ValueError"
proof (cases "schedule ds rng n dists re")
  case (Inl f)
  obtain e tr where f: "f = (e, tr)" by (cases f)
  from schedule_error[OF Inl[unfolded f]] assms Inl f show ?thesis
    by (auto simp: generate_def)
next
  case (Inr s)
  show ?thesis
  proof (cases "results_loop evolve (execs s) [] (trace s)")
    case (Inl f)
    obtain e tr where f: "f = (e, tr)" by (cases f)
    from results_loop_error[OF Inl[unfolded f]] assms Inl f Inr show ?thesis
      by (auto simp: generate_def)
  next
    case r: (Inr p)
    obtain rows tr where p: "p = (rows, tr)" by (cases p)
    from assms Inr r p show ?thesis
      by (auto simp: generate_def Let_def)
  qed
qed

text \<open>
  C4. \<^verbatim>\<open>generate\<close> raises the configuration error (\<^verbatim>\<open>ValueError\<close>) exactly when the
  weights sum to a value that differs from 1 by at least \<open>1e-3\<close>, and then the trace
  is empty: nothing was sampled, initialised or submitted before the error.
\<close>

theorem configuration_error_iff:
  "(snd (generate ds evolve rng n dists re) = Inl ValueError \<longleftrightarrow>
      1 / 1000 \<le> \<bar>sum_list (map snd dists) - 1\<bar>) \<and>
   (snd (generate ds evolve rng n dists re) = Inl ValueError \<longrightarrow>
      fst (generate ds evolve rng n dists re) = [])"
proof (cases "check_if_sum_is_close (map snd dists) 1 3")
  case True
  then have "\<not> 1 / 1000 \<le> \<bar>sum_list (map snd dists) - 1\<bar>"
    by (simp add: check_if_sum_is_close_def)
  with generate_not_ValueError[OF True, of ds evolve rng n re] show ?thesis by simp
next
  case False
  then have "1 / 1000 \<le> \<bar>sum_list (map snd dists) - 1\<bar>"
    by (simp add: check_if_sum_is_close_def)
  with False show ?thesis by (simp add: generate_def)
qed

text \<open>Weights summing to 0.75 are refused with an empty trace; weights summing to 1 are not.\<close>

theorem configuration_error_iff_witness:
  "snd (generate ten_nodes (\<lambda>e c. Returned (DataRow (root_node c))) (\<lambda>j. 0) 4
          [(simple, 1 / 2), (reasoning, 1 / 4)] True) = Inl ValueError \<and>
   fst (generate ten_nodes (\<lambda>e c. Returned (DataRow (root_node c))) (\<lambda>j. 0) 4
          [(simple, 1 / 2), (reasoning, 1 / 4)] True) = [] \<and>
   snd (generate ten_nodes (\<lambda>e c. Returned (DataRow (root_node c))) (\<lambda>j. 0) 4
          [(simple, 1 / 2), (reasoning, 1 / 2)] True) \<noteq> Inl ValueError"
  using configuration_error_iff
          [of ten_nodes "\<lambda>e c. Returned (DataRow (root_node c))" "\<lambda>j. 0" 4
              "[(simple, 1 / 2), (reasoning, 1 / 4)]" True]
        configuration_error_iff
          [of ten_nodes "\<lambda>e c. Returned (DataRow (root_node c))" "\<lambda>j. 0" 4
              "[(simple, 1 / 2), (reasoning, 1 / 2)]" True]
  by simp

subsection \<open>The empty-result error\<close>

lemma distributions_loop_zero: "distributions_loop re cn 0 dists s = Inr s"
proof (induction dists)
  case Nil
  then show ?case by simp
next
  case (Cons d dists)
  obtain ev p where d: "d = (ev, p)" by (cases d)
  from Cons show ?case by (simp add: d evolution_count_zero)
qed

lemma schedule_zero:
  assumes "get_random_nodes ds 0 None = Some sampled"
  shows "schedule ds rng 0 dists re =
     Inr \<lparr>execs = [new_Executor 0 re], total_evolutions = 0,
          trace = SetRunConfig # map InitEvolution (map fst dists) @ [GetRandomNodes 0]\<rparr>"
  using assms by (simp add: schedule_def Let_def distributions_loop_zero choices_def)

lemma Executor_results_returned:
  assumes "list_all (\<lambda>t. \<not> raised (evolve (fn t) (arg t))) (jobs ex)"
  shows "Executor_results evolve ex =
     (map (\<lambda>t. Evolve (fn t) (arg t)) (jobs ex),
      Inr (map (\<lambda>t. outcome_or_nan (evolve (fn t) (arg t))) (jobs ex)))"
  using assms by (simp add: Executor_results_def Let_def list_ex_iff list_all_iff comp_def)

lemma results_loop_all_nan:
  assumes "\<forall>e c. evolve e c = Returned NaN"
  shows "results_loop evolve exs acc tr =
     Inr (acc @ replicate (length (concat (map jobs exs))) NaN,
          tr @ map (\<lambda>t. Evolve (fn t) (arg t)) (concat (map jobs exs)))"
proof (induction exs arbitrary: acc tr)
  case Nil
  then show ?case by simp
next
  case (Cons ex exs)
  have "Executor_results evolve ex =
     (map (\<lambda>t. Evolve (fn t) (arg t)) (jobs ex), Inr (replicate (length (jobs ex)) NaN))"
    using assms by (simp add: Executor_results_returned list_all_iff map_replicate_const)
  with Cons show ?case by (simp add: replicate_add)
qed

text \<open>
  C6 (as the code has it). With \<open>test_size = 0\<close>, accepted weights and a store whose
  sampling returns, no assignment is created and no evolution is invoked (the trace
  holds the configuration, the initialisations and the sampling only), and the run
  raises \<^verbatim>\<open>ExceptionInRunner\<close>: the only executor returns no rows, and the guard
  \<^verbatim>\<open>total_test_data_rows == []\<close> fires.
\<close>

theorem zero_rows_raises:
  assumes "check_if_sum_is_close (map snd dists) 1 3"
    and "get_random_nodes ds 0 None = Some sampled"
  shows "(\<exists>s. schedule ds rng 0 dists re = Inr s \<and> assignments s = []) \<and>
         generate ds evolve rng 0 dists re =
           (SetRunConfig # map InitEvolution (map fst dists) @ [GetRandomNodes 0],
            Inl ExceptionInRunner)"
proof -
  note z = schedule_zero[OF assms(2), of rng dists re]
  have r: "Executor_results evolve (new_Executor 0 re) = ([], Inr [])"
    by (simp add: Executor_results_def new_Executor_def)
  have "generate ds evolve rng 0 dists re =
           (SetRunConfig # map InitEvolution (map fst dists) @ [GetRandomNodes 0],
            Inl ExceptionInRunner)"
    using assms(1) by (simp add: generate_def z r)
  then show ?thesis using z by (simp add: initial_assignments)
qed

text \<open>One strategy of weight 1 and no rows asked for.\<close>

theorem zero_rows_raises_witness:
  "generate ten_nodes (\<lambda>e c. Returned (DataRow (root_node c))) (\<lambda>j. 0) 0 [(simple, 1)] False =
     ([SetRunConfig, InitEvolution simple, GetRandomNodes 0], Inl ExceptionInRunner)"
proof -
  have c: "check_if_sum_is_close (map snd [(simple, 1 :: rat)]) 1 3"
    by (simp add: check_if_sum_is_close_def)
  have g: "get_random_nodes ten_nodes 0 None = Some []"
    by (simp add: ten_nodes_def)
  from zero_rows_raises[OF c g, where rng = "\<lambda>j. 0" and re = False
         and evolve = "\<lambda>e c. Returned (DataRow (root_node c))"]
  show ?thesis by simp
qed

text \<open>The default distribution and no rows asked for: an error, not an empty dataset.\<close>

theorem zero_rows_counterexample:
  "generate ten_nodes (\<lambda>e c. Returned (DataRow (root_node c))) (\<lambda>j. 0) 0 DEFAULT_DISTRIBUTION True =
     ([SetRunConfig, InitEvolution simple, InitEvolution reasoning, InitEvolution multi_context,
       GetRandomNodes 0],
      Inl ExceptionInRunner)"
  by code_simp

text \<open>
  C1 (as the code has it). The guard that raises \<^verbatim>\<open>ExceptionInRunner\<close> looks at the
  rows before the sentinels are filtered out. When every task returns the sentinel
  (weights accepted, \<open>test_size\<close> nodes sampled, no strategy's bound above
  \<open>test_size\<close>, which weights between 0 and 1 ensure by lemma
  \<open>weight_at_most_one_fits\<close>), the error is raised only if no task was scheduled,
  that is for \<open>test_size = 0\<close>; otherwise the run returns a dataset without rows.
\<close>

theorem all_invalid_rows:
  assumes "check_if_sum_is_close (map snd dists) 1 3"
    and "get_random_nodes ds n None = Some sampled" and "length sampled = n"
    and "list_all (\<lambda>(ev, p). count_fits p n n) dists"
    and "\<forall>e c. evolve e c = Returned NaN"
  shows "snd (generate ds evolve rng n dists re) =
           (if n = 0 then Inl ExceptionInRunner else Inr \<lparr>test_data = []\<rparr>)"
proof -
  have ne: "dists \<noteq> []"
    using assms(1) by (auto simp: check_if_sum_is_close_def)
  from schedule_succeeds[OF assms(2,3,4) ne]
  obtain s where s: "schedule ds rng n dists re = Inr s" by blast
  from schedule_props[OF s] obtain smp filler where
    l: "length filler = n - rounded_total dists n"
    and a: "assignments s =
             rounded_assignments (initial_current_nodes smp) dists n @
             filler_assignments (initial_current_nodes smp) filler (rounded_total dists n)"
    by blast
  have m: "length (assignments s) = rounded_total dists n + (n - rounded_total dists n)"
    using a l by (simp add: length_rounded_assignments length_filler_assignments)
  have z: "rounded_total dists 0 = 0"
    by (induction dists) (auto simp: rounded_total_def rounded_count_zero)
  have e: "length (assignments s) = 0 \<longleftrightarrow> n = 0"
    using m z by auto
  note r = results_loop_all_nan[OF assms(5), of "execs s" "[]" "trace s"]
  show ?thesis
    using assms(1) s r e
    by (simp add: generate_def Let_def assignments_def)
qed

text \<open>Four rows asked for, all tasks return the sentinel: an empty dataset comes back.\<close>

theorem all_invalid_rows_witness:
  "snd (generate ten_nodes (\<lambda>e c. Returned (NaN :: nat row)) (\<lambda>j. 0) 4 DEFAULT_DISTRIBUTION False) =
     Inr \<lparr>test_data = []\<rparr>"
proof -
  have c: "check_if_sum_is_close (map snd DEFAULT_DISTRIBUTION) 1 3"
    by (simp add: check_if_sum_is_close_def DEFAULT_DISTRIBUTION_def)
  have g: "get_random_nodes ten_nodes 4 None = Some [0..<4]"
    by (simp add: ten_nodes_def)
  have w: "list_all (\<lambda>(ev, p). count_fits p 4 4) DEFAULT_DISTRIBUTION"
    by (simp add: DEFAULT_DISTRIBUTION_def weight_at_most_one_fits)
  have v: "\<forall>e c. (\<lambda>e c. Returned (NaN :: nat row)) (e :: strategy) (c :: nat CurrentNodes) = Returned NaN"
    by simp
  from all_invalid_rows[OF c g _ w v, where rng = "\<lambda>j. 0" and re = False]
  show ?thesis by simp
qed

text \<open>One task, which returns the sentinel: the run tracks 0 rows and returns.\<close>

theorem all_invalid_rows_counterexample:
  "generate ten_nodes (\<lambda>e c. Returned (NaN :: nat row)) (\<lambda>j. 0) 1 [(simple, 1)] True =
     ([SetRunConfig, InitEvolution simple, GetRandomNodes 1,
       Submit \<lparr>fn = simple, arg = \<lparr>root_node = 0, nodes = [0]\<rparr>, name = (simple, 0)\<rparr>,
       Evolve simple \<lparr>root_node = 0, nodes = [0]\<rparr>, Track 0],
      Inr \<lparr>test_data = []\<rparr>)"
  by code_simp

subsection \<open>The single-row path\<close>

lemma py_getitem_out_of_range:
  "i < - int (length xs) \<Longrightarrow> py_getitem xs i = Inl IndexError"
  by (simp add: py_getitem_def Let_def)

text \<open>
  C7 (as the code has it). An explicit node index outside the range of a Python list (at
  least the length of the store's node list, or below minus its length) makes \<^verbatim>\<open>generate_single\<close> fail before any call of
  \<^verbatim>\<open>evolve\<close>: the \<^verbatim>\<open>assert\<close> fails for an index at or above the length, the list
  access raises \<^verbatim>\<open>IndexError\<close> for one below minus the length. The trace then holds the
  configuration and the initialisation only.
\<close>

theorem node_index_out_of_range:
  assumes "int (length (store_nodes ds)) \<le> i \<or> i < - int (length (store_nodes ds))"
  shows "generate_single ds evolve evolution score_threshold (Some i) =
           ([SetRunConfig, InitEvolution evolution],
            Inl (if int (length (store_nodes ds)) \<le> i then AssertionError else IndexError)) \<and>
         filter is_Evolve (fst (generate_single ds evolve evolution score_threshold (Some i))) = []"
proof (cases "int (length (store_nodes ds)) \<le> i")
  case True
  then show ?thesis
    by (simp add: generate_single_def select_node_def)
next
  case False
  with assms have "i < - int (length (store_nodes ds))" by simp
  from py_getitem_out_of_range[OF this] False show ?thesis
    by (simp add: generate_single_def select_node_def)
qed

text \<open>Ten nodes: index 10 fails the assertion, index -11 the list access.\<close>

theorem node_index_out_of_range_witness:
  "generate_single ten_nodes (\<lambda>e c. Returned (DataRow (root_node c))) simple 4 (Some 10) =
     ([SetRunConfig, InitEvolution simple], Inl AssertionError) \<and>
   generate_single ten_nodes (\<lambda>e c. Returned (DataRow (root_node c))) simple 4 (Some (- 11)) =
     ([SetRunConfig, InitEvolution simple], Inl IndexError)"
proof -
  have a: "int (length (store_nodes ten_nodes)) \<le> 10 \<or> 10 < - int (length (store_nodes ten_nodes))"
    by (simp add: ten_nodes_def)
  have b: "int (length (store_nodes ten_nodes)) \<le> - 11 \<or> - 11 < - int (length (store_nodes ten_nodes))"
    by (simp add: ten_nodes_def)
  from node_index_out_of_range[OF a, where evolve = "\<lambda>e c. Returned (DataRow (root_node c))"
         and evolution = simple and score_threshold = 4]
       node_index_out_of_range[OF b, where evolve = "\<lambda>e c. Returned (DataRow (root_node c))"
         and evolution = simple and score_threshold = 4]
  show ?thesis by (simp add: ten_nodes_def)
qed

text \<open>
  An index from minus the length to -1 is outside \<open>0, \<dots>, length - 1\<close>, yet it passes
  the assertion, which checks the upper bound only, and the list access counts from the
  end: with ten nodes, index -1 selects the last node and \<^verbatim>\<open>evolve\<close> is called.
\<close>

theorem negative_index_counterexample:
  "generate_single ten_nodes (\<lambda>e c. Returned (DataRow (root_node c))) simple 4 (Some (- 1)) =
     ([SetRunConfig, InitEvolution simple,
       Evolve simple \<lparr>root_node = Indexed 9, nodes = [Indexed 9]\<rparr>],
      Inr (Some \<lparr>test_data = DataRow (Indexed 9)\<rparr>))"
  by code_simp

lemma select_node_trace:
  "select_node ds th idx tr = Inr (node, tr') \<Longrightarrow> filter is_Evolve tr' = filter is_Evolve tr"
  by (auto simp: select_node_def split: option.splits if_splits sum.splits)

text \<open>
  C8. When \<^verbatim>\<open>generate_single\<close> returns, \<^verbatim>\<open>evolve\<close> was called exactly once, and the
  result is either the one row it produced, held in a \<^verbatim>\<open>TestDataset\<close>, or \<^verbatim>\<open>None\<close> when
  it produced the sentinel; the sentinel itself is never returned.
\<close>

theorem single_row_or_nothing:
  assumes "snd (generate_single ds evolve evolution score_threshold node_index) = Inr res"
  shows "\<exists>node.
           filter is_Evolve (fst (generate_single ds evolve evolution score_threshold node_index)) =
             [Evolve evolution \<lparr>root_node = node, nodes = [node]\<rparr>] \<and>
           ((\<exists>r. evolve evolution \<lparr>root_node = node, nodes = [node]\<rparr> = Returned (DataRow r) \<and>
                 res = Some \<lparr>test_data = DataRow r\<rparr>) \<or>
            (evolve evolution \<lparr>root_node = node, nodes = [node]\<rparr> = Returned NaN \<and>
             res = None))"
proof (cases "select_node ds score_threshold node_index [SetRunConfig, InitEvolution evolution]")
  case (Inl f)
  obtain e tr where "f = (e, tr)" by (cases f)
  with Inl assms show ?thesis by (simp add: generate_single_def)
next
  case (Inr p)
  obtain node tr where p: "p = (node, tr)" by (cases p)
  from select_node_trace[OF Inr[unfolded p]]
  have tr: "filter is_Evolve tr = []" by simp
  show ?thesis
  proof (cases "evolve evolution \<lparr>root_node = node, nodes = [node]\<rparr>")
    case Raised
    with Inr p assms show ?thesis by (simp add: generate_single_def Let_def)
  next
    case (Returned row)
    show ?thesis
    proof (cases row)
      case (DataRow r)
      with Returned Inr p assms tr show ?thesis
        by (intro exI[of _ node]) (auto simp: generate_single_def Let_def)
    next
      case NaN
      with Returned Inr p assms tr show ?thesis
        by (intro exI[of _ node]) (auto simp: generate_single_def Let_def)
    qed
  qed
qed

text \<open>A valid row for node 3 is returned; a sentinel for a sampled node gives \<^verbatim>\<open>None\<close>.\<close>

theorem single_row_or_nothing_witness:
  "snd (generate_single ten_nodes (\<lambda>e c. Returned (DataRow (root_node c))) simple 4 (Some 3)) =
     Inr (Some \<lparr>test_data = DataRow (Indexed 3)\<rparr>) \<and>
   filter is_Evolve
     (fst (generate_single ten_nodes (\<lambda>e c. Returned (DataRow (root_node c))) simple 4 (Some 3))) =
     [Evolve simple \<lparr>root_node = Indexed 3, nodes = [Indexed 3]\<rparr>] \<and>
   snd (generate_single ten_nodes (\<lambda>e c. Returned (NaN :: nat row)) simple 4 None) = Inr None"
proof -
  have a: "snd (generate_single ten_nodes (\<lambda>e c. Returned (DataRow (root_node c))) simple 4 (Some 3)) =
     Inr (Some \<lparr>test_data = DataRow (Indexed 3)\<rparr>)"
    by code_simp
  have b: "snd (generate_single ten_nodes (\<lambda>e c. Returned (NaN :: nat row)) simple 4 None) = Inr None"
    by code_simp
  from single_row_or_nothing[OF a] single_row_or_nothing[OF b] a b
  show ?thesis by auto
qed

subsection \<open>Initialising an evolution\<close>

lemma init_evolution_configured:
  "generator_llm evolution \<noteq> None \<Longrightarrow> init_evolution self evolution = evolution"
  by (cases "generator_llm evolution") (simp_all add: init_evolution_def)

lemma init_evolution_sets_llm:
  "generator_llm evolution = None \<Longrightarrow>
   generator_llm (init_evolution self evolution) = Some (self_generator_llm self)"
  by (simp add: init_evolution_def Let_def)

text \<open>
  C9 (as the code has it). \<^verbatim>\<open>init_evolution\<close> is gated on the generation model: an
  evolution whose \<open>generator_llm\<close> is set is left exactly as it is, whatever else is
  unset. When \<open>generator_llm\<close> is unset, it is set, and each of the document store,
  the question filter, the node filter and (for a \<^verbatim>\<open>ComplexEvolution\<close> only) the
  evolution filter is set if unset and kept if set. A second call changes nothing.
\<close>

theorem init_evolution_gated:
  "(generator_llm evolution \<noteq> None \<longrightarrow> init_evolution self evolution = evolution) \<and>
   (generator_llm evolution = None \<longrightarrow>
      generator_llm (init_evolution self evolution) = Some (self_generator_llm self) \<and>
      docstore (init_evolution self evolution) =
        (case docstore evolution of None \<Rightarrow> Some (self_docstore self) | Some d \<Rightarrow> Some d) \<and>
      question_filter (init_evolution self evolution) =
        (case question_filter evolution of
           None \<Rightarrow> Some (QuestionFilter (self_critic_llm self)) | Some f \<Rightarrow> Some f) \<and>
      node_filter (init_evolution self evolution) =
        (case node_filter evolution of
           None \<Rightarrow> Some (NodeFilter (self_critic_llm self)) | Some f \<Rightarrow> Some f) \<and>
      evolution_filter (init_evolution self evolution) =
        (if is_ComplexEvolution evolution
         then (case evolution_filter evolution of
                 None \<Rightarrow> Some (EvolutionFilter (self_critic_llm self)) | Some f \<Rightarrow> Some f)
         else evolution_filter evolution)) \<and>
   is_ComplexEvolution (init_evolution self evolution) = is_ComplexEvolution evolution \<and>
   init_evolution self (init_evolution self evolution) = init_evolution self evolution"
proof -
  have i: "init_evolution self (init_evolution self evolution) = init_evolution self evolution"
  proof (cases "generator_llm evolution")
    case None
    from init_evolution_sets_llm[OF None, of self]
    show ?thesis by (intro init_evolution_configured) simp
  next
    case (Some a)
    then show ?thesis by (simp add: init_evolution_configured)
  qed
  have c: "is_ComplexEvolution (init_evolution self evolution) = is_ComplexEvolution evolution"
    by (simp add: init_evolution_def Let_def)
  have f: "generator_llm evolution = None \<longrightarrow>
      generator_llm (init_evolution self evolution) = Some (self_generator_llm self) \<and>
      docstore (init_evolution self evolution) =
        (case docstore evolution of None \<Rightarrow> Some (self_docstore self) | Some d \<Rightarrow> Some d) \<and>
      question_filter (init_evolution self evolution) =
        (case question_filter evolution of
           None \<Rightarrow> Some (QuestionFilter (self_critic_llm self)) | Some f \<Rightarrow> Some f) \<and>
      node_filter (init_evolution self evolution) =
        (case node_filter evolution of
           None \<Rightarrow> Some (NodeFilter (self_critic_llm self)) | Some f \<Rightarrow> Some f) \<and>
      evolution_filter (init_evolution self evolution) =
        (if is_ComplexEvolution evolution
         then (case evolution_filter evolution of
                 None \<Rightarrow> Some (EvolutionFilter (self_critic_llm self)) | Some f \<Rightarrow> Some f)
         else evolution_filter evolution)"
    by (auto simp: init_evolution_def Let_def split: option.splits)
  show ?thesis using i c f by (simp add: init_evolution_configured)
qed

text \<open>
  A complex evolution with only its question filter set: the model, the store and the
  two other filters are filled in, the question filter is kept.
\<close>

theorem init_evolution_gated_witness:
  "init_evolution
     \<lparr>self_generator_llm = ''gen'', self_critic_llm = ''critic'', self_embeddings = (), self_docstore = ()\<rparr>
     \<lparr>generator_llm = None, docstore = None, question_filter = Some (QuestionFilter ''mine''),
      node_filter = None, is_ComplexEvolution = True, evolution_filter = None\<rparr> =
   \<lparr>generator_llm = Some ''gen'', docstore = Some (),
    question_filter = Some (QuestionFilter ''mine''), node_filter = Some (NodeFilter ''critic''),
    is_ComplexEvolution = True, evolution_filter = Some (EvolutionFilter ''critic'')\<rparr>"
  using init_evolution_gated
    [of "\<lparr>generator_llm = None, docstore = None, question_filter = Some (QuestionFilter ''mine''),
          node_filter = None, is_ComplexEvolution = True, evolution_filter = None\<rparr>"
        "\<lparr>self_generator_llm = ''gen'', self_critic_llm = ''critic'', self_embeddings = (),
          self_docstore = ()\<rparr>"]
  by (simp add: init_evolution_def)

text \<open>
  An evolution that brings its own generation model and no filter: nothing is filled in.
\<close>

theorem init_evolution_counterexample:
  "init_evolution
     \<lparr>self_generator_llm = ''gen'', self_critic_llm = ''critic'', self_embeddings = (), self_docstore = ()\<rparr>
     \<lparr>generator_llm = Some ''own'', docstore = None, question_filter = None,
      node_filter = None, is_ComplexEvolution = True, evolution_filter = None\<rparr> =
   \<lparr>generator_llm = Some ''own'', docstore = None, question_filter = None,
    node_filter = None, is_ComplexEvolution = True, evolution_filter = None\<rparr>"
  by (simp add: init_evolution_def)

end
